theory Spec2Isabelle
  imports Complex_Main "HOL-Library.Word" "HOL-Library.Multiset"
begin

unbundle bit_operations_syntax

section \<open>The procedural map generator of Remere's Map Editor\<close>

text \<open>
  A shallow embedding of \<^verbatim>\<open>source/simplex_noise.cpp\<close> and
  \<^verbatim>\<open>source/map_generator.cpp\<close>.

  Conventions.
  \<^item> C++ \<^verbatim>\<open>int\<close> is \<^typ>\<open>int\<close> (no wrap-around: the generator's integers are
    coordinates, sizes and counters), \<^verbatim>\<open>uint16_t\<close> item ids are \<^typ>\<open>16 word\<close>,
    the seeds are \<^typ>\<open>64 word\<close> and \<^typ>\<open>32 word\<close>.
  \<^item> \<^verbatim>\<open>double\<close> is idealised: a finite value is a \<^typ>\<open>real\<close> (no rounding, no
    overflow, no signed zero); the values a division by zero or a pole of
    \<^verbatim>\<open>std::pow\<close> produces are the three extra elements of the type \<open>dbl\<close> below.
  \<^item> Undefined behaviour and exceptions of the C++ are values of the type \<open>error\<close>.
  \<^item> The C++ standard library and the host editor are not part of the sources. What the
    generator uses of them and the sources do not determine is collected in the record
    \<open>lib\<close>, passed as the first argument \<open>L\<close> of every function that needs it.
\<close>

subsection \<open>Errors, library parameters, idealised doubles\<close>

datatype error =
    OutOfRange        \<comment> \<open>a vector read or written outside its bounds\<close>
  | BadDistribution   \<comment> \<open>\<^verbatim>\<open>uniform_int_distribution<>(a, b)\<close> with \<open>b < a\<close>\<close>
  | BadAlloc          \<comment> \<open>a vector constructed with a negative size\<close>
  | NoReturn          \<comment> \<open>a loop that never ends\<close>

text \<open>A node of the A* open set: \<open>x, y, g, h\<close> and the parent's coordinates.\<close>

type_synonym node = "int \<times> int \<times> int \<times> int \<times> (int \<times> int)"

definition node_f :: "node \<Rightarrow> int" where
  "node_f n = (case n of (x, y, g, h, p) \<Rightarrow> g + h)"

record 'g lib =
  stoull :: "string \<Rightarrow> 64 word option"       \<comment> \<open>\<^verbatim>\<open>std::stoull\<close>; \<open>None\<close> when it throws\<close>
  str_hash :: "string \<Rightarrow> 64 word"            \<comment> \<open>\<^verbatim>\<open>std::hash<std::string>\<close>\<close>
  mt_seed :: "32 word \<Rightarrow> 'g"                  \<comment> \<open>\<^verbatim>\<open>std::mt19937(seed)\<close>\<close>
  mt_next :: "'g \<Rightarrow> 32 word \<times> 'g"             \<comment> \<open>\<^verbatim>\<open>rng()\<close>\<close>
  uniform_int :: "int \<Rightarrow> int \<Rightarrow> 'g \<Rightarrow> int \<times> 'g" \<comment> \<open>\<^verbatim>\<open>uniform_int_distribution<>(a, b)(rng)\<close>\<close>
  item_valid :: "16 word \<Rightarrow> bool"              \<comment> \<open>whether \<^verbatim>\<open>Item::Create(id)\<close> returns an item\<close>
  pq_choose :: "node list \<Rightarrow> nat"            \<comment> \<open>which node \<^verbatim>\<open>std::priority_queue::top\<close> shows\<close>

text \<open>
  The contract of \<^verbatim>\<open>uniform_int_distribution\<close>: for \<open>a \<le> b\<close> the value drawn lies in
  \<open>[a, b]\<close>. With \<open>b < a\<close> the behaviour is undefined, and \<open>draw\<close> reports it.
\<close>

definition uniform_ok :: "'g lib \<Rightarrow> bool" where
  "uniform_ok L \<longleftrightarrow> (\<forall>a b g. a \<le> b \<longrightarrow> a \<le> fst (uniform_int L a b g) \<and> fst (uniform_int L a b g) \<le> b)"

definition draw :: "'g lib \<Rightarrow> int \<Rightarrow> int \<Rightarrow> 'g \<Rightarrow> error + (int \<times> 'g)" where
  "draw L a b g = (if a \<le> b then Inr (uniform_int L a b g) else Inl BadDistribution)"

text \<open>Modelled from the spec: \<^verbatim>\<open>Item::Create\<close>, the host's item factory by numeric type
  id (item.cpp is not among the sources). An item is represented by its id; the factory
  may return no item, which the generator checks for.\<close>

definition Item_Create :: "'g lib \<Rightarrow> 16 word \<Rightarrow> 16 word option" where
  "Item_Create L ident = (if item_valid L ident then Some ident else None)"

datatype dbl = Fin real | PInf | NInf | NaN

fun dless :: "dbl \<Rightarrow> dbl \<Rightarrow> bool" where
  "dless (Fin a) (Fin b) = (a < b)"
| "dless NaN _ = False"
| "dless _ NaN = False"
| "dless NInf NInf = False"
| "dless NInf _ = True"
| "dless _ NInf = False"
| "dless PInf _ = False"
| "dless _ PInf = True"

fun dneg :: "dbl \<Rightarrow> dbl" where
  "dneg (Fin a) = Fin (- a)"
| "dneg PInf = NInf"
| "dneg NInf = PInf"
| "dneg NaN = NaN"

fun dadd :: "dbl \<Rightarrow> dbl \<Rightarrow> dbl" where
  "dadd (Fin a) (Fin b) = Fin (a + b)"
| "dadd NaN _ = NaN"
| "dadd _ NaN = NaN"
| "dadd PInf NInf = NaN"
| "dadd NInf PInf = NaN"
| "dadd PInf _ = PInf"
| "dadd NInf _ = NInf"
| "dadd _ PInf = PInf"
| "dadd _ NInf = NInf"

definition dsub :: "dbl \<Rightarrow> dbl \<Rightarrow> dbl" where
  "dsub a b = dadd a (dneg b)"

text \<open>Multiplication by a finite constant, the only product of a possibly non-finite
  value the generator forms (\<^verbatim>\<open>(value + 1.0) * 0.5\<close>).\<close>

fun dscale :: "dbl \<Rightarrow> real \<Rightarrow> dbl" where
  "dscale (Fin a) c = Fin (a * c)"
| "dscale NaN c = NaN"
| "dscale PInf c = (if c > 0 then PInf else if c < 0 then NInf else NaN)"
| "dscale NInf c = (if c > 0 then NInf else if c < 0 then PInf else NaN)"

text \<open>Division of two finite values: by zero it gives an infinity, or NaN for \<open>0 / 0\<close>.\<close>

definition ddiv :: "real \<Rightarrow> real \<Rightarrow> dbl" where
  "ddiv a b = (if b \<noteq> 0 then Fin (a / b)
               else if a > 0 then PInf else if a < 0 then NInf else NaN)"

text \<open>\<^verbatim>\<open>std::min(a, b)\<close> is \<^verbatim>\<open>(b < a) ? b : a\<close> and \<^verbatim>\<open>std::max(a, b)\<close> is
  \<^verbatim>\<open>(a < b) ? b : a\<close>; with a NaN operand the comparison is false.\<close>

definition std_min :: "dbl \<Rightarrow> dbl \<Rightarrow> dbl" where
  "std_min a b = (if dless b a then b else a)"

definition std_max :: "dbl \<Rightarrow> dbl \<Rightarrow> dbl" where
  "std_max a b = (if dless a b then b else a)"

text \<open>\<^verbatim>\<open>std::pow(x, y)\<close> for the bases \<open>applyFalloff\<close> passes: NaN, or a finite \<open>x\<close> with
  \<open>0 \<le> x \<le> 1\<close>.\<close>

fun std_pow :: "dbl \<Rightarrow> real \<Rightarrow> dbl" where
  "std_pow (Fin x) y =
     (if x = 0 then (if y = 0 then Fin 1 else if y > 0 then Fin 0 else PInf)
      else Fin (x powr y))"
| "std_pow d y = (if y = 0 then Fin 1 else NaN)"

subsection \<open>simplex\_noise.cpp\<close>

record simplex =
  perm :: "int list"
  permMod12 :: "int list"

definition F2 :: real where "F2 = 0.5 * (sqrt 3 - 1)"
definition G2 :: real where "G2 = (3 - sqrt 3) / 6"

definition grad3 :: "(int \<times> int \<times> int) list" where
  "grad3 = [(1,1,0),(-1,1,0),(1,-1,0),(-1,-1,0),
            (1,0,1),(-1,0,1),(1,0,-1),(-1,0,-1),
            (0,1,1),(0,-1,1),(0,1,-1),(0,-1,-1)]"

text \<open>The Fisher-Yates loop \<^verbatim>\<open>for (i = 255; i > 0; i--)\<close>, with \<open>i = Suc n\<close>.\<close>

fun shuffle :: "'g lib \<Rightarrow> nat \<Rightarrow> 'g \<Rightarrow> int list \<Rightarrow> int list" where
  "shuffle L 0 g p = p"
| "shuffle L (Suc n) g p =
     (let (r, g') = mt_next L g;
          j = unat r mod (Suc n + 1)
      in shuffle L n g' (p[Suc n := p ! j, j := p ! Suc n]))"

definition initializePermutation :: "'g lib \<Rightarrow> 32 word \<Rightarrow> simplex" where
  "initializePermutation L seed =
     (let p = shuffle L 255 (mt_seed L seed) (map int [0..<256])
      in \<lparr> perm = p @ p, permMod12 = map (\<lambda>v. v mod 12) (p @ p) \<rparr>)"

definition SimplexNoise :: "'g lib \<Rightarrow> 32 word \<Rightarrow> simplex" where
  "SimplexNoise L seed = initializePermutation L seed"

text \<open>\<^verbatim>\<open>static_cast<int>\<close> truncates towards zero.\<close>

definition trunc :: "real \<Rightarrow> int" where
  "trunc x = (if x \<ge> 0 then \<lfloor>x\<rfloor> else \<lceil>x\<rceil>)"

definition fastfloor :: "real \<Rightarrow> int" where
  "fastfloor x = (let xi = trunc x in if x < real_of_int xi then xi - 1 else xi)"

definition dot :: "(int \<times> int \<times> int) \<Rightarrow> real \<Rightarrow> real \<Rightarrow> real" where
  "dot g x y = (case g of (g0, g1, g2) \<Rightarrow> real_of_int g0 * x + real_of_int g1 * y)"

definition corner :: "(int \<times> int \<times> int) \<Rightarrow> real \<Rightarrow> real \<Rightarrow> real" where
  "corner g x y =
     (let t = 0.5 - x * x - y * y
      in if t < 0 then 0 else (let t2 = t * t in t2 * t2 * dot g x y))"

definition noise_fn :: "simplex \<Rightarrow> real \<Rightarrow> real \<Rightarrow> real" where
  "noise_fn sn xin yin =
     (let s = (xin + yin) * F2;
          i = fastfloor (xin + s);
          j = fastfloor (yin + s);
          t = real_of_int (i + j) * G2;
          X0 = real_of_int i - t;
          Y0 = real_of_int j - t;
          x0 = xin - X0;
          y0 = yin - Y0;
          (i1, j1) = (if x0 > y0 then (1::int, 0::int) else (0, 1));
          x1 = x0 - real_of_int i1 + G2;
          y1 = y0 - real_of_int j1 + G2;
          x2 = x0 - 1.0 + 2.0 * G2;
          y2 = y0 - 1.0 + 2.0 * G2;
          ii = i AND 255;
          jj = j AND 255;
          gi0 = permMod12 sn ! nat (ii + perm sn ! nat jj);
          gi1 = permMod12 sn ! nat (ii + i1 + perm sn ! nat (jj + j1));
          gi2 = permMod12 sn ! nat (ii + 1 + perm sn ! nat (jj + 1));
          n0 = corner (grad3 ! nat gi0) x0 y0;
          n1 = corner (grad3 ! nat gi1) x1 y1;
          n2 = corner (grad3 ! nat gi2) x2 y2
      in 70.0 * (n0 + n1 + n2))"

text \<open>The octave loop of \<open>fractal\<close>; \<open>n\<close> counts the iterations that remain. The
  \<^verbatim>\<open>double\<close>s of the loop are reals here: neither rounding nor overflow is modelled, so
  a statement about the loop is about the source only for arguments that keep the
  amplitude, the frequency and the scaled coordinates within the range of a
  \<^verbatim>\<open>double\<close>.\<close>

fun fractal_loop ::
  "simplex \<Rightarrow> real \<Rightarrow> real \<Rightarrow> real \<Rightarrow> real \<Rightarrow> nat \<Rightarrow> real \<Rightarrow> real \<Rightarrow> real \<Rightarrow> real \<Rightarrow> real \<times> real" where
  "fractal_loop sn x y persistence lacunarity 0 val amplitude frequency maxValue = (val, maxValue)"
| "fractal_loop sn x y persistence lacunarity (Suc n) val amplitude frequency maxValue =
     fractal_loop sn x y persistence lacunarity n
       (val + noise_fn sn (x * frequency) (y * frequency) * amplitude)
       (amplitude * persistence) (frequency * lacunarity) (maxValue + amplitude)"

definition fractal :: "simplex \<Rightarrow> real \<Rightarrow> real \<Rightarrow> int \<Rightarrow> real \<Rightarrow> real \<Rightarrow> dbl" where
  "fractal sn x y octaves persistence lacunarity =
     (case fractal_loop sn x y persistence lacunarity (nat octaves) 0.0 1.0 1.0 0.0 of
        (val, maxValue) \<Rightarrow> ddiv val maxValue)"

subsection \<open>The host map and the generator object\<close>

text \<open>Modelled from the spec: the host tile map (map.h and tile.h are not among the
  sources). A tile holds at most one ground item and a list of stacked items, is addressed
  by \<open>(x, y, floor)\<close>, and is allocated on demand: \<open>getTile\<close> returns the tile or null,
  \<open>createTile\<close> a new empty tile, \<open>setTile\<close> stores a tile at a position.\<close>

type_synonym position = "int \<times> int \<times> int"

record tile =
  ground :: "16 word option"
  items :: "16 word list"

type_synonym host_map = "position \<Rightarrow> tile option"

definition createTile :: tile where
  "createTile = \<lparr> ground = None, items = [] \<rparr>"

definition ground_id_at :: "host_map \<Rightarrow> position \<Rightarrow> 16 word option" where
  "ground_id_at m pos = (case m pos of None \<Rightarrow> None | Some t \<Rightarrow> ground t)"

record IslandConfig =
  noise_scale :: real
  noise_octaves :: int
  noise_persistence :: real
  noise_lacunarity :: real
  island_size :: real
  island_falloff :: real
  island_threshold :: real
  water_id :: "16 word"
  ground_id :: "16 word"
  enable_cleanup :: bool
  min_land_patch_size :: int
  max_water_hole_size :: int
  smoothing_passes :: int
  target_floor :: int

text \<open>The generator object. \<open>calls\<close> is not a member of the C++ class: it records every
  invocation of the progress callback (current, total, answer), oldest first, so that
  statements about the invocations can be made. A callback is a function of its two
  arguments: a \<^verbatim>\<open>std::function\<close> that answers by a state of its own is not covered, and
  the statements below that register a callback are about callbacks of this kind.\<close>

record 'g generator =
  noise :: simplex
  progress_callback :: "(int \<Rightarrow> int \<Rightarrow> bool) option"
  rng :: 'g
  calls :: "(int \<times> int \<times> bool) list"

definition setProgressCallback :: "'g generator \<Rightarrow> (int \<Rightarrow> int \<Rightarrow> bool) option \<Rightarrow> 'g generator" where
  "setProgressCallback g callback = g\<lparr>progress_callback := callback\<rparr>"

text \<open>\<^verbatim>\<open>progress_callback(current, total)\<close> behind its guard \<^verbatim>\<open>progress_callback &&\<close>:
  the answer (true when no callback is registered) and the generator with the call
  recorded.\<close>

definition invoke :: "'g generator \<Rightarrow> int \<Rightarrow> int \<Rightarrow> bool \<times> 'g generator" where
  "invoke g current tot =
     (case progress_callback g of
        None \<Rightarrow> (True, g)
      | Some cb \<Rightarrow> (cb current tot, g\<lparr>calls := calls g @ [(current, tot, cb current tot)]\<rparr>))"

definition seedRandom :: "'g lib \<Rightarrow> 'g generator \<Rightarrow> string \<Rightarrow> 'g generator" where
  "seedRandom L g seed =
     (let numeric_seed = (case stoull L seed of Some v \<Rightarrow> v | None \<Rightarrow> str_hash L seed)
      in g\<lparr>noise := SimplexNoise L (ucast (numeric_seed AND 0xFFFFFFFF)),
           rng := mt_seed L (ucast (drop_bit 32 numeric_seed XOR (numeric_seed AND 0xFFFFFFFF)))\<rparr>)"

text \<open>The constructor \<^verbatim>\<open>MapGenerator()\<close>: no callback, seeded with \<^verbatim>\<open>"default"\<close>.\<close>

definition MapGenerator :: "'g lib \<Rightarrow> 'g generator" where
  "MapGenerator L =
     seedRandom L \<lparr> noise = \<lparr> perm = [], permMod12 = [] \<rparr>, progress_callback = None,
                    rng = mt_seed L 5489, calls = [] \<rparr> ''default''"

text \<open>The cells of a \<open>width \<times> height\<close> rectangle in the order of the loops
  \<^verbatim>\<open>for y ... for x ...\<close>.\<close>

definition cells :: "int \<Rightarrow> int \<Rightarrow> (int \<times> int) list" where
  "cells width height = concat (map (\<lambda>y. map (\<lambda>x. (x, y)) [0..width - 1]) [0..height - 1])"

subsection \<open>Island generation: height map, mask, tile placement\<close>

definition generateHeightMap :: "simplex \<Rightarrow> IslandConfig \<Rightarrow> int \<Rightarrow> int \<Rightarrow> dbl list list" where
  "generateHeightMap sn config width height =
     map (\<lambda>y. map (\<lambda>x.
            (let nx = real_of_int x * noise_scale config;
                 ny = real_of_int y * noise_scale config;
                 v = fractal sn nx ny (noise_octaves config)
                       (noise_persistence config) (noise_lacunarity config)
             in dscale (dadd v (Fin 1.0)) 0.5)) [0..width - 1]) [0..height - 1]"

definition getDistance :: "int \<Rightarrow> int \<Rightarrow> int \<Rightarrow> int \<Rightarrow> real" where
  "getDistance x y centerX centerY =
     (let dx = real_of_int (x - centerX); dy = real_of_int (y - centerY)
      in sqrt (dx * dx + dy * dy))"

definition applyFalloff :: "dbl \<Rightarrow> real \<Rightarrow> dbl" where
  "applyFalloff distance falloff =
     (if dless distance (Fin 0.0) then Fin 0.0
      else if dless (Fin 1.0) distance then Fin 1.0
      else std_pow distance falloff)"

text \<open>One iteration of the loop body of \<open>applyIslandMask\<close>: the new value of
  \<^verbatim>\<open>heightMap[y][x]\<close> from its old value \<open>v\<close>.\<close>

definition mask_cell :: "IslandConfig \<Rightarrow> int \<Rightarrow> int \<Rightarrow> int \<Rightarrow> int \<Rightarrow> dbl \<Rightarrow> dbl" where
  "mask_cell config width height x y v =
     (let centerX = real_of_int width / 2.0;
          centerY = real_of_int height / 2.0;
          maxRadius = real_of_int (min width height) / 2.0;
          distance = getDistance x y (trunc centerX) (trunc centerY);
          normalizedDistance = ddiv distance (maxRadius * island_size config);
          falloff = applyFalloff normalizedDistance (island_falloff config)
      in std_max (Fin 0.0) (std_min (Fin 1.0) (dsub v falloff)))"

definition applyIslandMask :: "dbl list list \<Rightarrow> IslandConfig \<Rightarrow> int \<Rightarrow> int \<Rightarrow> dbl list list" where
  "applyIslandMask heightMap config width height =
     map (\<lambda>y. map (\<lambda>x. mask_cell config width height x y (heightMap ! nat y ! nat x))
                 [0..width - 1]) [0..height - 1]"

text \<open>The body of the placement loop for one cell: classify, fetch or create the tile,
  drop its ground, install the new ground item when the factory returns one.\<close>

definition place_tile :: "'g lib \<Rightarrow> IslandConfig \<Rightarrow> dbl list list \<Rightarrow> int \<Rightarrow> int \<Rightarrow> int \<Rightarrow> int \<Rightarrow> host_map \<Rightarrow> host_map" where
  "place_tile L config heightMap offsetX offsetY x y m =
     (let height_value = heightMap ! nat y ! nat x;
          normalized_threshold = (island_threshold config + 1.0) * 0.5;
          tileId = (if dless height_value (Fin normalized_threshold)
                    then water_id config else ground_id config);
          pos = (x + offsetX, y + offsetY, target_floor config);
          t = (case m pos of None \<Rightarrow> createTile | Some t \<Rightarrow> t);
          t1 = t\<lparr>ground := None\<rparr>;
          t2 = (case Item_Create L tileId of None \<Rightarrow> t1 | Some i \<Rightarrow> t1\<lparr>ground := Some i\<rparr>)
      in m(pos \<mapsto> t2))"

fun placeTiles_loop ::
  "'g lib \<Rightarrow> IslandConfig \<Rightarrow> dbl list list \<Rightarrow> int \<Rightarrow> int \<Rightarrow> int \<Rightarrow> (int \<times> int) list \<Rightarrow> int
     \<Rightarrow> 'g generator \<Rightarrow> host_map \<Rightarrow> 'g generator \<times> host_map" where
  "placeTiles_loop L config heightMap totalTiles offsetX offsetY [] tilesPlaced g m = (g, m)"
| "placeTiles_loop L config heightMap totalTiles offsetX offsetY ((x, y) # cs) tilesPlaced g m =
     (let m' = place_tile L config heightMap offsetX offsetY x y m;
          tilesPlaced' = tilesPlaced + 1
      in if progress_callback g \<noteq> None \<and> tilesPlaced' mod 1000 = 0
         then (let progress = 40 + trunc (real_of_int tilesPlaced' / real_of_int totalTiles * 30);
                   (a, g') = invoke g progress 100
               in if \<not> a then (g', m')
                  else placeTiles_loop L config heightMap totalTiles offsetX offsetY cs tilesPlaced' g' m')
         else placeTiles_loop L config heightMap totalTiles offsetX offsetY cs tilesPlaced' g m')"

definition placeTiles ::
  "'g lib \<Rightarrow> 'g generator \<Rightarrow> host_map \<Rightarrow> dbl list list \<Rightarrow> IslandConfig \<Rightarrow> int \<Rightarrow> int \<Rightarrow> int \<Rightarrow> int
     \<Rightarrow> 'g generator \<times> host_map" where
  "placeTiles L g m heightMap config width height offsetX offsetY =
     placeTiles_loop L config heightMap (width * height) offsetX offsetY (cells width height) 0 g m"

subsection \<open>Island generation: cleanup\<close>

text \<open>The scan of the four neighbours \<^verbatim>\<open>dx = {-1, 1, 0, 0}\<close>, \<^verbatim>\<open>dy = {0, 0, -1, 1}\<close>,
  written twice in the source with the same body (in \<open>floodFillCount\<close> and in the marking
  loop of \<open>removeSmallPatches\<close>): a neighbour inside the rectangle that is not yet
  visited and whose ground id is the target is marked and queued. \<open>visit\<close> is the
  body for one neighbour. The visited container (a \<^verbatim>\<open>std::set\<close> of pairs there, a
  matrix of flags here) is the set of marked cells.\<close>

definition visit ::
  "host_map \<Rightarrow> int \<Rightarrow> int \<Rightarrow> int \<Rightarrow> 16 word \<Rightarrow> int \<Rightarrow> int \<Rightarrow> int \<times> int
     \<Rightarrow> (int \<times> int) list \<times> (int \<times> int) set \<Rightarrow> (int \<times> int) list \<times> (int \<times> int) set" where
  "visit m z width height target_id offsetX offsetY n qv =
     (case n of (nx, ny) \<Rightarrow> case qv of (queue, visited) \<Rightarrow>
        if nx < 0 \<or> nx \<ge> width \<or> ny < 0 \<or> ny \<ge> height then (queue, visited)
        else if (nx, ny) \<in> visited then (queue, visited)
        else (case ground_id_at m (nx + offsetX, ny + offsetY, z) of
                None \<Rightarrow> (queue, visited)
              | Some i \<Rightarrow> if i = target_id
                          then (queue @ [(nx, ny)], insert (nx, ny) visited)
                          else (queue, visited)))"

definition neighbours4 :: "int \<times> int \<Rightarrow> (int \<times> int) list" where
  "neighbours4 c = (case c of (cx, cy) \<Rightarrow> [(cx - 1, cy), (cx + 1, cy), (cx, cy - 1), (cx, cy + 1)])"

definition scan4 ::
  "host_map \<Rightarrow> int \<Rightarrow> int \<Rightarrow> int \<Rightarrow> 16 word \<Rightarrow> int \<Rightarrow> int \<Rightarrow> int \<times> int
     \<Rightarrow> (int \<times> int) list \<times> (int \<times> int) set \<Rightarrow> (int \<times> int) list \<times> (int \<times> int) set" where
  "scan4 m z width height target_id offsetX offsetY c qv =
     fold (visit m z width height target_id offsetX offsetY) (neighbours4 c) qv"

definition rect :: "int \<Rightarrow> int \<Rightarrow> (int \<times> int) set" where
  "rect width height = {0..width - 1} \<times> {0..height - 1}"

text \<open>The replacement step of \<open>floodFillCount\<close> at a popped cell.\<close>

definition replace_ground :: "'g lib \<Rightarrow> host_map \<Rightarrow> position \<Rightarrow> 16 word \<Rightarrow> host_map" where
  "replace_ground L m pos replacement_id =
     (if replacement_id \<noteq> 0
      then (case m pos of
              None \<Rightarrow> m
            | Some t \<Rightarrow> (case ground t of
                           None \<Rightarrow> m
                         | Some i \<Rightarrow> m(pos \<mapsto> t\<lparr>ground := Item_Create L replacement_id\<rparr>)))
      else m)"

lemma visit_measure:
  "visit m z w h t ox oy n (q, v) = (q', v') \<Longrightarrow>
   length q' + card (rect w h - v') = length q + card (rect w h - v)"
proof -
  assume a: "visit m z w h t ox oy n (q, v) = (q', v')"
  obtain nx ny where n: "n = (nx, ny)" by (cases n)
  have fin: "finite (rect w h - v)" by (simp add: rect_def)
  show ?thesis
  proof (cases "(q', v') = (q, v)")
    case True
    then show ?thesis by simp
  next
    case False
    with a n have in_r: "(nx, ny) \<in> rect w h" and nv: "(nx, ny) \<notin> v"
      and q': "q' = q @ [(nx, ny)]" and v': "v' = insert (nx, ny) v"
      by (auto simp: visit_def rect_def split: if_splits option.splits)
    have "rect w h - v' = (rect w h - v) - {(nx, ny)}" using v' by auto
    moreover have "(nx, ny) \<in> rect w h - v" using in_r nv by simp
    ultimately have "card (rect w h - v') = card (rect w h - v) - 1"
      and "card (rect w h - v) > 0"
      using fin by (auto simp: card_gt_0_iff)
    then show ?thesis using q' by simp
  qed
qed

lemma fold_visit_measure:
  "fold (visit m z w h t ox oy) ns (q, v) = (q', v') \<Longrightarrow>
   length q' + card (rect w h - v') = length q + card (rect w h - v)"
proof (induction ns arbitrary: q v)
  case Nil
  then show ?case by simp
next
  case (Cons n ns)
  obtain q1 v1 where s: "visit m z w h t ox oy n (q, v) = (q1, v1)"
    by (cases "visit m z w h t ox oy n (q, v)")
  from Cons.prems s have "fold (visit m z w h t ox oy) ns (q1, v1) = (q', v')" by simp
  from Cons.IH [OF this] visit_measure [OF s] show ?case by simp
qed

lemma scan4_measure:
  "scan4 m z w h t ox oy c (q, v) = (q', v') \<Longrightarrow>
   length q' + card (rect w h - v') = length q + card (rect w h - v)"
  unfolding scan4_def by (rule fold_visit_measure)

text \<open>The loop \<^verbatim>\<open>while (!queue.empty())\<close> of \<open>floodFillCount\<close>.\<close>

function ff_loop ::
  "'g lib \<Rightarrow> int \<Rightarrow> int \<Rightarrow> int \<Rightarrow> 16 word \<Rightarrow> 16 word \<Rightarrow> int \<Rightarrow> int
     \<Rightarrow> host_map \<Rightarrow> (int \<times> int) list \<Rightarrow> (int \<times> int) set \<Rightarrow> int \<Rightarrow> int \<times> host_map" where
  "ff_loop L z width height target_id replacement_id offsetX offsetY m [] visited cnt = (cnt, m)"
| "ff_loop L z width height target_id replacement_id offsetX offsetY m ((cx, cy) # queue) visited cnt =
     (let m' = replace_ground L m (cx + offsetX, cy + offsetY, z) replacement_id;
          qv = scan4 m' z width height target_id offsetX offsetY (cx, cy) (queue, visited)
      in ff_loop L z width height target_id replacement_id offsetX offsetY m' (fst qv) (snd qv) (cnt + 1))"
  by pat_completeness auto
termination
proof (relation "measure (\<lambda>(L, z, w, h, t, r, ox, oy, m, q, v, c). length q + card (rect w h - v))",
       goal_cases)
  case 1
  then show ?case by simp
next
  case (2 L z w h t r ox oy m cx cy queue visited cnt m' qv)
  have "scan4 m' z w h t ox oy (cx, cy) (queue, visited) = (fst qv, snd qv)"
    using 2 by simp
  from scan4_measure [OF this] show ?case by simp
qed

definition floodFillCount ::
  "'g lib \<Rightarrow> host_map \<Rightarrow> int \<Rightarrow> int \<Rightarrow> int \<Rightarrow> int \<Rightarrow> int \<Rightarrow> 16 word \<Rightarrow> 16 word \<Rightarrow> int \<Rightarrow> int
     \<Rightarrow> int \<times> host_map" where
  "floodFillCount L m x y z width height target_id replacement_id offsetX offsetY =
     (case ground_id_at m (x + offsetX, y + offsetY, z) of
        None \<Rightarrow> (0, m)
      | Some i \<Rightarrow>
          if i \<noteq> target_id then (0, m)
          else ff_loop L z width height target_id replacement_id offsetX offsetY m [(x, y)] {(x, y)} 0)"

text \<open>The marking loop of \<open>removeSmallPatches\<close>.\<close>

function mark_loop ::
  "int \<Rightarrow> int \<Rightarrow> int \<Rightarrow> 16 word \<Rightarrow> int \<Rightarrow> int
     \<Rightarrow> host_map \<Rightarrow> (int \<times> int) list \<Rightarrow> (int \<times> int) set \<Rightarrow> (int \<times> int) set" where
  "mark_loop z width height tile_id offsetX offsetY m [] visited = visited"
| "mark_loop z width height tile_id offsetX offsetY m (c # queue) visited =
     (let qv = scan4 m z width height tile_id offsetX offsetY c (queue, visited)
      in mark_loop z width height tile_id offsetX offsetY m (fst qv) (snd qv))"
  by pat_completeness auto
termination
proof (relation "measure (\<lambda>(z, w, h, t, ox, oy, m, q, v). length q + card (rect w h - v))",
       goal_cases)
  case 1
  then show ?case by simp
next
  case (2 z w h t ox oy m c queue visited qv)
  have "scan4 m z w h t ox oy c (queue, visited) = (fst qv, snd qv)"
    using 2 by simp
  from scan4_measure [OF this] show ?case by (simp add: case_prod_unfold)
qed

text \<open>The body of the scanning loop of \<open>removeSmallPatches\<close> for the cell \<open>(x, y)\<close>, on
  the map and the visited matrix. The floor \<^verbatim>\<open>z = 7\<close> and the replacement ids 4526 and
  4608 are constants of the source.\<close>

definition patch_cell ::
  "'g lib \<Rightarrow> 16 word \<Rightarrow> int \<Rightarrow> int \<Rightarrow> int \<Rightarrow> int \<Rightarrow> int \<Rightarrow> int \<times> int
     \<Rightarrow> host_map \<times> (int \<times> int) set \<Rightarrow> host_map \<times> (int \<times> int) set" where
  "patch_cell L tile_id min_size width height offsetX offsetY c mv =
     (case c of (x, y) \<Rightarrow> case mv of (m, visited) \<Rightarrow>
        let z = 7;
            opposite_id = (if tile_id = 4608 then 4526 else 4608)
        in if (x, y) \<in> visited then (m, visited)
           else (case ground_id_at m (x + offsetX, y + offsetY, z) of
                   None \<Rightarrow> (m, visited)
                 | Some groundId \<Rightarrow>
                     if groundId \<noteq> tile_id then (m, visited)
                     else
                       let patchSize = fst (floodFillCount L m x y z width height tile_id 0 offsetX offsetY);
                           m' = (if patchSize < min_size \<and> patchSize > 0
                                 then snd (floodFillCount L m x y z width height tile_id opposite_id offsetX offsetY)
                                 else m)
                       in (m', mark_loop z width height tile_id offsetX offsetY m' [(x, y)]
                                 (insert (x, y) visited))))"

definition removeSmallPatches ::
  "'g lib \<Rightarrow> host_map \<Rightarrow> 16 word \<Rightarrow> int \<Rightarrow> int \<Rightarrow> int \<Rightarrow> int \<Rightarrow> int \<Rightarrow> host_map" where
  "removeSmallPatches L m tile_id min_size width height offsetX offsetY =
     fst (fold (patch_cell L tile_id min_size width height offsetX offsetY) (cells width height) (m, {}))"

definition fillSmallHoles ::
  "'g lib \<Rightarrow> host_map \<Rightarrow> 16 word \<Rightarrow> 16 word \<Rightarrow> int \<Rightarrow> int \<Rightarrow> int \<Rightarrow> int \<Rightarrow> int \<Rightarrow> host_map" where
  "fillSmallHoles L m target_id fill_id max_size width height offsetX offsetY =
     removeSmallPatches L m target_id max_size width height offsetX offsetY"

text \<open>\<open>smoothCoastline\<close>. \<open>tileIds\<close> is the copy of the ground ids taken at the start
  of a pass (0 where a tile or its ground is missing).\<close>

definition neighbours8 :: "int \<times> int \<Rightarrow> (int \<times> int) list" where
  "neighbours8 c = (case c of (x, y) \<Rightarrow>
     [(x - 1, y), (x + 1, y), (x, y - 1), (x, y + 1),
      (x - 1, y - 1), (x - 1, y + 1), (x + 1, y - 1), (x + 1, y + 1)])"

definition smooth_cell ::
  "'g lib \<Rightarrow> IslandConfig \<Rightarrow> int \<Rightarrow> int \<Rightarrow> int \<Rightarrow> int \<Rightarrow> (int \<times> int \<Rightarrow> 16 word) \<Rightarrow> int \<times> int
     \<Rightarrow> host_map \<Rightarrow> host_map" where
  "smooth_cell L config width height offsetX offsetY tileIds c m =
     (case c of (x, y) \<Rightarrow>
        let currentId = tileIds (x, y);
            inside = filter (\<lambda>(nx, ny). \<not> (nx < 0 \<or> nx \<ge> width \<or> ny < 0 \<or> ny \<ge> height))
                       (neighbours8 (x, y));
            waterCount = int (length (filter (\<lambda>n. tileIds n = water_id config) inside));
            landCount = int (length (filter (\<lambda>n. tileIds n \<noteq> water_id config
                                                  \<and> tileIds n = ground_id config) inside));
            newId = (if currentId = water_id config \<and> landCount > waterCount then ground_id config
                     else if currentId = ground_id config \<and> waterCount > landCount then water_id config
                     else currentId);
            pos = (x + offsetX, y + offsetY, target_floor config)
        in if newId \<noteq> currentId
           then (case m pos of
                   None \<Rightarrow> m
                 | Some t \<Rightarrow> m(pos \<mapsto> t\<lparr>ground := Item_Create L newId\<rparr>))
           else m)"

definition smooth_pass ::
  "'g lib \<Rightarrow> IslandConfig \<Rightarrow> int \<Rightarrow> int \<Rightarrow> int \<Rightarrow> int \<Rightarrow> host_map \<Rightarrow> host_map" where
  "smooth_pass L config width height offsetX offsetY m =
     (let tileIds = (\<lambda>(x, y). case ground_id_at m (x + offsetX, y + offsetY, target_floor config) of
                                 None \<Rightarrow> 0 | Some i \<Rightarrow> i)
      in fold (smooth_cell L config width height offsetX offsetY tileIds)
           (concat (map (\<lambda>y. map (\<lambda>x. (x, y)) [1..width - 2]) [1..height - 2])) m)"

definition smoothCoastline ::
  "'g lib \<Rightarrow> host_map \<Rightarrow> IslandConfig \<Rightarrow> int \<Rightarrow> int \<Rightarrow> int \<Rightarrow> int \<Rightarrow> host_map" where
  "smoothCoastline L m config width height offsetX offsetY =
     ((smooth_pass L config width height offsetX offsetY) ^^ nat (smoothing_passes config)) m"

definition cleanupTerrain ::
  "'g lib \<Rightarrow> 'g generator \<Rightarrow> host_map \<Rightarrow> IslandConfig \<Rightarrow> int \<Rightarrow> int \<Rightarrow> int \<Rightarrow> int
     \<Rightarrow> 'g generator \<times> host_map" where
  "cleanupTerrain L g m config width height offsetX offsetY =
     (let m1 = (if min_land_patch_size config > 0
                then removeSmallPatches L m (ground_id config) (min_land_patch_size config)
                       width height offsetX offsetY
                else m);
          (a1, g1) = invoke g 80 100
      in if \<not> a1 then (g1, m1)
         else
           let m2 = (if max_water_hole_size config > 0
                     then fillSmallHoles L m1 (water_id config) (ground_id config)
                            (max_water_hole_size config) width height offsetX offsetY
                     else m1);
               (a2, g2) = invoke g1 90 100
           in if \<not> a2 then (g2, m2)
              else (g2, if smoothing_passes config > 0
                        then smoothCoastline L m2 config width height offsetX offsetY
                        else m2))"

subsection \<open>The entry point generateIslandMap\<close>

text \<open>The map pointer may be null (\<open>None\<close>). The result is the returned flag, the
  generator object and the host map after the call.\<close>

definition generateIslandMap ::
  "'g lib \<Rightarrow> 'g generator \<Rightarrow> host_map option \<Rightarrow> IslandConfig \<Rightarrow> int \<Rightarrow> int \<Rightarrow> string \<Rightarrow> int \<Rightarrow> int
     \<Rightarrow> bool \<times> 'g generator \<times> host_map option" where
  "generateIslandMap L g mp config width height seed startX startY =
     (case mp of
        None \<Rightarrow> (False, g, None)
      | Some m \<Rightarrow>
          if width \<le> 0 \<or> height \<le> 0 then (False, g, Some m)
          else
            let g0 = seedRandom L g seed;
                (a1, g1) = invoke g0 0 100
            in if \<not> a1 then (False, g1, Some m)
               else
                 let heightMap = generateHeightMap (noise g1) config width height;
                     (a2, g2) = invoke g1 20 100
                 in if \<not> a2 then (False, g2, Some m)
                    else
                      let heightMap' = applyIslandMask heightMap config width height;
                          offsetX = startX;
                          offsetY = startY;
                          (a3, g3) = invoke g2 40 100
                      in if \<not> a3 then (False, g3, Some m)
                         else
                           let (g4, m4) = placeTiles L g3 m heightMap' config width height offsetX offsetY
                           in if enable_cleanup config
                              then (let (a5, g5) = invoke g4 70 100
                                    in if \<not> a5 then (False, g5, Some m4)
                                       else
                                         let (g6, m6) = cleanupTerrain L g5 m4 config width height offsetX offsetY;
                                             (a7, g7) = invoke g6 100 100
                                         in (True, g7, Some m6))
                              else (let (a7, g7) = invoke g4 100 100
                                    in (True, g7, Some m4)))"

subsection \<open>Dungeon generation: rooms and grid\<close>

text \<open>\<open>target_floor\<close> and \<open>enable_cleanup\<close> are fields of both configurations; the
  dungeon's carry the prefix \<open>dungeon_\<close>. The members \<open>x, y, w, h\<close> of \<open>Room\<close> are
  \<open>rx, ry, rw, rh\<close>, and the member \<open>size\<close> of \<open>Intersection\<close> is \<open>isize\<close>.\<close>

record DungeonConfig =
  dungeon_target_floor :: int
  wall_id :: "16 word"
  floor_id :: "16 word"
  room_count :: int
  min_room_size :: int
  max_room_size :: int
  corridor_width :: int
  generate_caves :: bool
  cave_scale :: real
  cave_threshold :: real
  dungeon_enable_cleanup :: bool
  connect_all_rooms :: bool
  add_dead_ends :: bool
  use_smart_pathfinding :: bool
  add_intersections :: bool
  intersection_count :: int
  intersection_size :: int

datatype Room = Room (rx: int) (ry: int) (rw: int) (rh: int)

record Intersection =
  centerX :: int
  centerY :: int
  isize :: int
  connectionCount :: int
  connections :: "(int \<times> int) list"

text \<open>\<^verbatim>\<open>w / 2\<close> on \<^verbatim>\<open>int\<close> truncates towards zero.\<close>

definition half :: "int \<Rightarrow> int" where
  "half a = (if a \<ge> 0 then a div 2 else - ((- a) div 2))"

definition room_cx :: "Room \<Rightarrow> int" where
  "room_cx r = rx r + half (rw r)"

definition room_cy :: "Room \<Rightarrow> int" where
  "room_cy r = ry r + half (rh r)"

definition intersects :: "Room \<Rightarrow> Room \<Rightarrow> bool" where
  "intersects r other \<longleftrightarrow>
     rx r \<le> rx other + rw other \<and> rx r + rw r \<ge> rx other \<and>
     ry r \<le> ry other + rh other \<and> ry r + rh r \<ge> ry other"

text \<open>\<^verbatim>\<open>Room expanded1 = {newRoom.x - 1, newRoom.y - 1, newRoom.w + 2, newRoom.h + 2}\<close>.\<close>

definition expanded :: "Room \<Rightarrow> Room" where
  "expanded r = Room (rx r - 1) (ry r - 1) (rw r + 2) (rh r + 2)"

text \<open>The loop of \<open>generateRooms\<close>. The comparison \<^verbatim>\<open>rooms.size() < config.room_count\<close>
  is unsigned: a negative \<open>room_count\<close> compares greater than every size.\<close>

function rooms_loop ::
  "'g lib \<Rightarrow> DungeonConfig \<Rightarrow> int \<Rightarrow> int \<Rightarrow> int \<Rightarrow> int \<Rightarrow> Room list \<Rightarrow> 'g \<Rightarrow> error + (Room list \<times> 'g)" where
  "rooms_loop L config width height max_attempts attempts rooms g =
     (if (room_count config < 0 \<or> int (length rooms) < room_count config) \<and> attempts < max_attempts
      then (case draw L (min_room_size config) (max_room_size config) g of
              Inl e \<Rightarrow> Inl e
            | Inr (w, g1) \<Rightarrow>
          (case draw L (min_room_size config) (max_room_size config) g1 of
              Inl e \<Rightarrow> Inl e
            | Inr (h, g2) \<Rightarrow>
          (case draw L 1 (width - w - 2) g2 of
              Inl e \<Rightarrow> Inl e
            | Inr (x, g3) \<Rightarrow>
          (case draw L 1 (height - h - 2) g3 of
              Inl e \<Rightarrow> Inl e
            | Inr (y, g4) \<Rightarrow>
                let newRoom = Room x y w h;
                    overlap = list_ex (\<lambda>r. intersects (expanded newRoom) r) rooms
                in rooms_loop L config width height max_attempts (attempts + 1)
                     (if \<not> overlap then rooms @ [newRoom] else rooms) g4))))
      else Inr (rooms, g))"
  by pat_completeness auto
termination
  by (relation "measure (\<lambda>(L, config, width, height, max_attempts, attempts, rooms, g).
                   nat (max_attempts - attempts))") auto

definition generateRooms :: "'g lib \<Rightarrow> DungeonConfig \<Rightarrow> int \<Rightarrow> int \<Rightarrow> 'g \<Rightarrow> error + (Room list \<times> 'g)" where
  "generateRooms L config width height g =
     rooms_loop L config width height (room_count config * 10) 0 [] g"

text \<open>Tables indexed \<^verbatim>\<open>t[y][x]\<close>: the grid (0 = void, 1 = floor), and the tables of the
  path search.\<close>

definition in_grid :: "'a list list \<Rightarrow> int \<Rightarrow> int \<Rightarrow> bool" where
  "in_grid t x y \<longleftrightarrow> 0 \<le> y \<and> y < int (length t) \<and> 0 \<le> x \<and> x < int (length (t ! nat y))"

definition grid_at :: "'a list list \<Rightarrow> int \<Rightarrow> int \<Rightarrow> 'a" where
  "grid_at t x y = t ! nat y ! nat x"

definition grid_put :: "'a list list \<Rightarrow> int \<Rightarrow> int \<Rightarrow> 'a \<Rightarrow> 'a list list" where
  "grid_put t x y v = t[nat y := (t ! nat y)[nat x := v]]"

definition isWallPosition :: "int list list \<Rightarrow> int \<Rightarrow> int \<Rightarrow> int \<Rightarrow> int \<Rightarrow> bool" where
  "isWallPosition grid x y width height =
     (if x < 0 \<or> x \<ge> width \<or> y < 0 \<or> y \<ge> height then False
      else if grid_at grid x y = 1 then False
      else list_ex (\<lambda>(nx, ny). nx \<ge> 0 \<and> nx < width \<and> ny \<ge> 0 \<and> ny < height \<and> grid_at grid nx ny = 1)
             (neighbours8 (x, y)))"

text \<open>The carving of a room writes \<^verbatim>\<open>grid[y][x] = 1\<close> without a check.\<close>

definition carve_cell :: "int \<times> int \<Rightarrow> error + int list list \<Rightarrow> error + int list list" where
  "carve_cell c acc =
     (case acc of
        Inl e \<Rightarrow> Inl e
      | Inr grid \<Rightarrow> (case c of (x, y) \<Rightarrow>
          if in_grid grid x y then Inr (grid_put grid x y 1) else Inl OutOfRange))"

definition room_cells :: "Room \<Rightarrow> (int \<times> int) list" where
  "room_cells r =
     concat (map (\<lambda>y. map (\<lambda>x. (x, y)) [rx r..rx r + rw r - 1]) [ry r..ry r + rh r - 1])"

definition carve_rooms :: "Room list \<Rightarrow> int list list \<Rightarrow> error + int list list" where
  "carve_rooms rooms grid = fold (\<lambda>room acc. fold carve_cell (room_cells room) acc) rooms (Inr grid)"

text \<open>\<open>createCorridorTile\<close>: every caller passes the dimensions of the grid itself, so
  the guarded write is inside the grid.\<close>

definition createCorridorTile :: "int list list \<Rightarrow> int \<Rightarrow> int \<Rightarrow> int \<Rightarrow> int \<Rightarrow> int list list" where
  "createCorridorTile grid x y width height =
     (if x \<ge> 0 \<and> x < width \<and> y \<ge> 0 \<and> y < height then grid_put grid x y 1 else grid)"

text \<open>The values \<open>c\<close> takes in \<^verbatim>\<open>while (c != b) { c += (b > c) ? 1 : -1; ... }\<close>
  started at \<open>a\<close>.\<close>

definition path_to :: "int \<Rightarrow> int \<Rightarrow> int list" where
  "path_to a b = (if a \<le> b then [a + 1..b] else rev [b..a - 1])"

definition createImprovedCorridor ::
  "'g lib \<Rightarrow> int list list \<Rightarrow> int \<Rightarrow> int \<Rightarrow> int \<Rightarrow> int \<Rightarrow> DungeonConfig \<Rightarrow> int \<Rightarrow> int \<Rightarrow> 'g
     \<Rightarrow> error + (int list list \<times> 'g)" where
  "createImprovedCorridor L grid x1 y1 x2 y2 config width height g =
     (case draw L 0 1 g of
        Inl e \<Rightarrow> Inl e
      | Inr (coin, g') \<Rightarrow>
          let ws = [0..corridor_width config - 1]
          in if coin \<noteq> 0
             then
               (let grid1 = fold (\<lambda>cx gr. fold (\<lambda>w gr. createCorridorTile gr cx (y1 + w) width height) ws gr)
                              (path_to x1 x2) grid;
                    grid2 = fold (\<lambda>cy gr.
                              let gr' = fold (\<lambda>w gr. createCorridorTile gr x2
                                                (cy + (if x2 > x1 then w else 0)) width height) ws gr
                              in fold (\<lambda>w gr. createCorridorTile gr (x2 + w) cy width height) ws gr')
                              (path_to y1 y2) grid1
                in Inr (grid2, g'))
             else
               (let grid1 = fold (\<lambda>cy gr. fold (\<lambda>w gr. createCorridorTile gr (x1 + w) cy width height) ws gr)
                              (path_to y1 y2) grid;
                    grid2 = fold (\<lambda>cx gr. fold (\<lambda>w gr. createCorridorTile gr cx (y2 + w) width height) ws gr)
                              (path_to x1 x2) grid1
                in Inr (grid2, g')))"

subsection \<open>Dungeon generation: the path search\<close>

text \<open>The open set is a \<^verbatim>\<open>std::priority_queue\<close> of the C++ standard library, ordered with
  \<^verbatim>\<open>std::greater\<close> on \<open>f = g + h\<close>: \<^verbatim>\<open>top()\<close> is a node of least \<open>f\<close>. It is the list
  of the nodes pushed and not yet popped, in the order they were pushed. Among several
  nodes of least \<open>f\<close> the library's heap decides, here the parameter \<open>pq_choose\<close>;
  where \<open>pq_choose\<close> does not name a node of least \<open>f\<close>, the one pushed first is
  taken. The nodes pushed during one search are pairwise different (the \<open>g\<close> of a cell
  only falls), so no list of open nodes occurs twice, and a choice by the list covers
  every choice by the history of the heap.\<close>

definition first_min :: "node list \<Rightarrow> nat" where
  "first_min q = length (takeWhile (\<lambda>n. node_f n \<noteq> Min (node_f ` set q)) q)"

definition pq_top :: "'g lib \<Rightarrow> node list \<Rightarrow> nat" where
  "pq_top L q =
     (let i = pq_choose L q
      in if i < length q \<and> (\<forall>n \<in> set q. node_f (q ! i) \<le> node_f n) then i else first_min q)"

lemma first_min_lt: "q \<noteq> [] \<Longrightarrow> first_min q < length q"
proof -
  assume "q \<noteq> []"
  then have "Min (node_f ` set q) \<in> node_f ` set q" by (intro Min_in) auto
  then obtain n where "n \<in> set q" "node_f n = Min (node_f ` set q)" by auto
  then have "takeWhile (\<lambda>n. node_f n \<noteq> Min (node_f ` set q)) q \<noteq> q"
    by auto
  moreover have "takeWhile (\<lambda>n. node_f n \<noteq> Min (node_f ` set q)) q =
      take (length (takeWhile (\<lambda>n. node_f n \<noteq> Min (node_f ` set q)) q)) q"
    by (rule takeWhile_eq_take)
  ultimately have "length (takeWhile (\<lambda>n. node_f n \<noteq> Min (node_f ` set q)) q) \<noteq> length q"
    by (metis take_all order_refl)
  then show ?thesis unfolding first_min_def
    using length_takeWhile_le [of "\<lambda>n. node_f n \<noteq> Min (node_f ` set q)" q] by linarith
qed

lemma pq_top_lt: "q \<noteq> [] \<Longrightarrow> pq_top L q < length q"
  by (simp add: pq_top_def Let_def first_min_lt)

text \<open>The measure of the search loop: the sum of the g-scores above their minimum. A
  relaxation lowers one score to a value above another score, so it lowers the sum.\<close>

definition gsum :: "int list list \<Rightarrow> nat" where
  "gsum G = (let xs = concat G in sum_list (map (\<lambda>v. nat (v - Min (set xs))) xs))"

lemma concat_grid_put:
  "in_grid G x y \<Longrightarrow>
   \<exists>k < length (concat G). concat (grid_put G x y v) = (concat G)[k := v] \<and> concat G ! k = grid_at G x y"
proof -
  have gen: "\<And>i j. i < length G \<Longrightarrow> j < length (G ! i) \<Longrightarrow>
    \<exists>k < length (concat G). concat (G[i := (G ! i)[j := v]]) = (concat G)[k := v] \<and> concat G ! k = G ! i ! j"
  proof (induction G)
    case Nil
    then show ?case by simp
  next
    case (Cons r G)
    show ?case
    proof (cases i)
      case 0
      with Cons.prems have "j < length r" by simp
      then have "concat ((r # G)[0 := r[j := v]]) = (concat (r # G))[j := v]"
        "concat (r # G) ! j = r ! j" "j < length (concat (r # G))"
        by (simp_all add: list_update_append nth_append)
      then show ?thesis using 0 by auto
    next
      case (Suc i')
      with Cons.prems have "i' < length G" "j < length (G ! i')" by simp_all
      from Cons.IH [OF this] obtain k where k: "k < length (concat G)"
        "concat (G[i' := (G ! i')[j := v]]) = (concat G)[k := v]" "concat G ! k = G ! i' ! j" by auto
      have "length r + k < length (concat (r # G))" using k by simp
      moreover have "concat ((r # G)[i := ((r # G) ! i)[j := v]]) = (concat (r # G))[length r + k := v]"
        using Suc k by (simp add: list_update_append)
      moreover have "concat (r # G) ! (length r + k) = (r # G) ! i ! j"
        using Suc k by (simp add: nth_append)
      ultimately show ?thesis by blast
    qed
  qed
  assume "in_grid G x y"
  then have "nat y < length G" "nat x < length (G ! nat y)"
    by (auto simp: in_grid_def)
  from gen [OF this] show ?thesis by (simp add: grid_put_def grid_at_def)
qed

lemma flat_update_less:
  fixes xs :: "int list"
  assumes k: "k < length xs" and k': "k' < length xs" and lo: "xs ! k' < v" and hi: "v < xs ! k"
  shows "Min (set (xs[k := v])) = Min (set xs)"
    and "sum_list (map (\<lambda>u. nat (u - Min (set xs))) (xs[k := v])) < sum_list (map (\<lambda>u. nat (u - Min (set xs))) xs)"
proof -
  let ?m = "Min (set xs)"
  have ne: "set xs \<noteq> {}" using k by auto
  have m_le: "\<And>u. u \<in> set xs \<Longrightarrow> ?m \<le> u" by simp
  have mk': "?m \<le> xs ! k'" using k' by simp
  have m_in: "?m \<in> set xs" using ne by (intro Min_in) auto
  have "xs ! k \<noteq> ?m" using mk' lo hi by linarith
  then have m_in': "?m \<in> set (xs[k := v])"
    using m_in k by (metis in_set_conv_nth length_list_update nth_list_update_neq)
  have "\<And>u. u \<in> set (xs[k := v]) \<Longrightarrow> ?m \<le> u"
  proof -
    fix u assume "u \<in> set (xs[k := v])"
    then have "u = v \<or> u \<in> set xs" using set_update_subset_insert by fastforce
    then show "?m \<le> u" using mk' lo m_le by auto
  qed
  then show "Min (set (xs[k := v])) = ?m"
    using m_in' by (intro Min_eqI) auto
  let ?f = "\<lambda>u. nat (u - ?m)"
  have "sum_list (map ?f (xs[k := v])) = sum_list ((map ?f xs)[k := ?f v])"
    by (simp add: map_update)
  also have "\<dots> = sum_list (map ?f xs) + ?f v - (map ?f xs) ! k"
    using k by (simp add: sum_list_update)
  finally have eq: "sum_list (map ?f (xs[k := v])) = sum_list (map ?f xs) + ?f v - ?f (xs ! k)"
    using k by simp
  have "?f (xs ! k) \<le> sum_list (map ?f xs)"
    using k by (intro member_le_sum_list) auto
  moreover have "?f v < ?f (xs ! k)" using mk' lo hi by linarith
  ultimately show "sum_list (map ?f (xs[k := v])) < sum_list (map ?f xs)"
    using eq by linarith
qed

lemma gsum_put_less:
  assumes "in_grid G nx ny" "in_grid G cx cy" "grid_at G cx cy < v" "v < grid_at G nx ny"
  shows "gsum (grid_put G nx ny v) < gsum G"
proof -
  from concat_grid_put [OF assms(1)] obtain k where k: "k < length (concat G)"
    "concat (grid_put G nx ny v) = (concat G)[k := v]" "concat G ! k = grid_at G nx ny" by blast
  from concat_grid_put [OF assms(2), of "grid_at G cx cy"] obtain k' where k': "k' < length (concat G)"
    "concat G ! k' = grid_at G cx cy" by blast
  from flat_update_less [OF k(1) k'(1), of v] assms(3,4) k(3) k'(2)
  show ?thesis by (simp add: gsum_def k(2))
qed


text \<open>The state of the loop of \<open>findShortestPath\<close>: the open set, \<open>gScore\<close> and
  \<open>cameFrom\<close>. \<open>relax\<close> is the loop body for one neighbour \<open>n\<close> of the current
  cell \<open>cur\<close>; the table reads and writes of the source are unchecked.\<close>

type_synonym astate = "node list \<times> int list list \<times> (int \<times> int) list list"

definition relax ::
  "int list list \<Rightarrow> int \<Rightarrow> int \<Rightarrow> int \<Rightarrow> int \<Rightarrow> int \<times> int \<Rightarrow> int \<times> int \<Rightarrow> error + astate \<Rightarrow> error + astate" where
  "relax grid x2 y2 width height cur n acc =
     (case acc of
        Inl e \<Rightarrow> Inl e
      | Inr (openSet, gScore, cameFrom) \<Rightarrow>
          (case cur of (cx, cy) \<Rightarrow> case n of (nx, ny) \<Rightarrow>
             if nx \<ge> 0 \<and> nx < width \<and> ny \<ge> 0 \<and> ny < height
             then
               if \<not> (in_grid grid nx ny \<and> in_grid gScore cx cy \<and> in_grid gScore nx ny
                       \<and> in_grid cameFrom nx ny)
               then Inl OutOfRange
               else
                 let cost = (if grid_at grid nx ny = 1 then 1 else 5);
                     tentative_g = grid_at gScore cx cy + cost
                 in if tentative_g < grid_at gScore nx ny
                    then Inr (openSet @ [(nx, ny, tentative_g, \<bar>x2 - nx\<bar> + \<bar>y2 - ny\<bar>, (cx, cy))],
                              grid_put gScore nx ny tentative_g,
                              grid_put cameFrom nx ny (cx, cy))
                    else Inr (openSet, gScore, cameFrom)
             else Inr (openSet, gScore, cameFrom)))"

text \<open>The reconstruction loop \<^verbatim>\<open>while (cx != -1)\<close> follows \<open>cameFrom\<close>. The table has
  finitely many entries, so a walk of more steps than entries has met a cell twice and
  never ends: the fuel is the number of entries plus one.\<close>

fun trace_back :: "nat \<Rightarrow> (int \<times> int) list list \<Rightarrow> int \<Rightarrow> int \<Rightarrow> (int \<times> int) list \<Rightarrow> error + (int \<times> int) list" where
  "trace_back 0 cameFrom cx cy path = Inl NoReturn"
| "trace_back (Suc fuel) cameFrom cx cy path =
     (if cx = -1 then Inr path
      else if \<not> in_grid cameFrom cx cy then Inl OutOfRange
      else (case grid_at cameFrom cx cy of (px, py) \<Rightarrow>
              trace_back fuel cameFrom px py ((cx, cy) # path)))"

lemma relax_measure:
  "relax grid x2 y2 w h cur n (Inr (q, G, C)) = Inr (q', G', C') \<Longrightarrow>
   2 * gsum G' + length q' \<le> 2 * gsum G + length q"
proof -
  assume a: "relax grid x2 y2 w h cur n (Inr (q, G, C)) = Inr (q', G', C')"
  obtain cx cy nx ny where c: "cur = (cx, cy)" "n = (nx, ny)" by (cases cur, cases n)
  show ?thesis
  proof (cases "G' = G \<and> q' = q")
    case True
    then show ?thesis by simp
  next
    case False
    let ?v = "grid_at G cx cy + (if grid_at grid nx ny = 1 then 1 else 5)"
    from a c False have ig: "in_grid G nx ny" "in_grid G cx cy" and lt: "?v < grid_at G nx ny"
      and G': "G' = grid_put G nx ny ?v" and q': "length q' = Suc (length q)"
      by (auto simp: relax_def Let_def split: if_splits)
    have "grid_at G cx cy < ?v" by simp
    from gsum_put_less [OF ig this lt] G' q' show ?thesis by simp
  qed
qed

lemma relax_Inl [simp]: "relax grid x2 y2 w h cur n (Inl e) = Inl e"
  by (simp add: relax_def)

lemma fold_relax_Inl [simp]: "fold (relax grid x2 y2 w h cur) ns (Inl e) = Inl e"
  by (induction ns) simp_all

lemma fold_relax_measure:
  "fold (relax grid x2 y2 w h cur) ns (Inr (q, G, C)) = Inr (q', G', C') \<Longrightarrow>
   2 * gsum G' + length q' \<le> 2 * gsum G + length q"
proof (induction ns arbitrary: q G C)
  case Nil
  then show ?case by simp
next
  case (Cons n ns)
  show ?case
  proof (cases "relax grid x2 y2 w h cur n (Inr (q, G, C))")
    case (Inl e)
    with Cons.prems show ?thesis by simp
  next
    case (Inr st)
    obtain q1 G1 C1 where st: "st = (q1, G1, C1)" by (cases st)
    from Cons.prems Inr st have "fold (relax grid x2 y2 w h cur) ns (Inr (q1, G1, C1)) = Inr (q', G', C')"
      by simp
    from Cons.IH [OF this] relax_measure [OF Inr [unfolded st]] show ?thesis by linarith
  qed
qed

text \<open>The search loop. It returns the path and, for statements about the cost, the
  table \<open>gScore\<close> as it stands when the loop ends.\<close>

function astar_loop ::
  "'g lib \<Rightarrow> int list list \<Rightarrow> int \<Rightarrow> int \<Rightarrow> int \<Rightarrow> int \<Rightarrow> node list \<Rightarrow> int list list \<Rightarrow> (int \<times> int) list list
     \<Rightarrow> error + ((int \<times> int) list \<times> int list list)" where
  "astar_loop L grid x2 y2 width height openSet gScore cameFrom =
     (if openSet = [] then Inr ([], gScore)
      else
        let i = pq_top L openSet;
            rest = take i openSet @ drop (Suc i) openSet
        in (case openSet ! i of (cx, cy, g, h, parent) \<Rightarrow>
              if cx = x2 \<and> cy = y2
              then (case trace_back (length (concat cameFrom) + 1) cameFrom x2 y2 [] of
                      Inl e \<Rightarrow> Inl e
                    | Inr path \<Rightarrow> Inr (path, gScore))
              else (case fold (relax grid x2 y2 width height (cx, cy)) (neighbours4 (cx, cy))
                           (Inr (rest, gScore, cameFrom)) of
                      Inl e \<Rightarrow> Inl e
                    | Inr (openSet', gScore', cameFrom') \<Rightarrow>
                        astar_loop L grid x2 y2 width height openSet' gScore' cameFrom')))"
  by pat_completeness auto
termination
proof (relation "measure (\<lambda>(L, grid, x2, y2, w, h, q, G, C). 2 * gsum G + length q)", goal_cases)
  case 1
  then show ?case by simp
next
  case (2 L grid x2 y2 w h q G C i rest cx r1 cy r2 g r3 hh parent st q' r4 G' C')
  have i: "i < length q" using 2 by (simp add: pq_top_lt)
  have len: "length rest = length q - 1" using 2(3) i by simp
  have "fold (relax grid x2 y2 w h (cx, cy)) (neighbours4 (cx, cy)) (Inr (rest, G, C)) = Inr (q', G', C')"
    using 2 by simp
  from fold_relax_measure [OF this] len i show ?case by simp
qed


definition astar ::
  "'g lib \<Rightarrow> int list list \<Rightarrow> int \<Rightarrow> int \<Rightarrow> int \<Rightarrow> int \<Rightarrow> int \<Rightarrow> int
     \<Rightarrow> error + ((int \<times> int) list \<times> int list list)" where
  "astar L grid x1 y1 x2 y2 width height =
     (if width < 0 \<or> height < 0 then Inl BadAlloc
      else
        let gScore = replicate (nat height) (replicate (nat width) 999999);
            cameFrom = replicate (nat height) (replicate (nat width) (-1, -1))
        in if \<not> in_grid gScore x1 y1 then Inl OutOfRange
           else astar_loop L grid x2 y2 width height
                  [(x1, y1, 0, \<bar>x2 - x1\<bar> + \<bar>y2 - y1\<bar>, (-1, -1))]
                  (grid_put gScore x1 y1 0) cameFrom)"

definition findShortestPath ::
  "'g lib \<Rightarrow> int list list \<Rightarrow> int \<Rightarrow> int \<Rightarrow> int \<Rightarrow> int \<Rightarrow> int \<Rightarrow> int \<Rightarrow> error + (int \<times> int) list" where
  "findShortestPath L grid x1 y1 x2 y2 width height =
     (case astar L grid x1 y1 x2 y2 width height of
        Inl e \<Rightarrow> Inl e
      | Inr (path, gScore) \<Rightarrow> Inr path)"

subsection \<open>Dungeon generation: corridors, hubs, dead ends\<close>

definition createSmartCorridor ::
  "'g lib \<Rightarrow> int list list \<Rightarrow> int \<Rightarrow> int \<Rightarrow> int \<Rightarrow> int \<Rightarrow> DungeonConfig \<Rightarrow> int \<Rightarrow> int \<Rightarrow> 'g
     \<Rightarrow> error + (int list list \<times> 'g)" where
  "createSmartCorridor L grid x1 y1 x2 y2 config width height g =
     (if use_smart_pathfinding config
      then (case findShortestPath L grid x1 y1 x2 y2 width height of
              Inl e \<Rightarrow> Inl e
            | Inr path \<Rightarrow>
                if path \<noteq> []
                then (let ws = [0..corridor_width config - 1]
                      in Inr (fold (\<lambda>(px, py) gr.
                                 fold (\<lambda>dy gr.
                                   fold (\<lambda>dx gr. createCorridorTile gr (px + dx) (py + dy) width height) ws gr)
                                 ws gr) path grid, g))
                else createImprovedCorridor L grid x1 y1 x2 y2 config width height g)
      else createImprovedCorridor L grid x1 y1 x2 y2 config width height g)"

text \<open>The loop of \<open>generateIntersections\<close>; the comparison with \<open>intersection_count\<close>
  is unsigned, as in \<open>generateRooms\<close>.\<close>

function inter_loop ::
  "'g lib \<Rightarrow> DungeonConfig \<Rightarrow> Room list \<Rightarrow> int \<Rightarrow> int \<Rightarrow> int \<Rightarrow> Intersection list \<Rightarrow> 'g
     \<Rightarrow> error + (Intersection list \<times> 'g)" where
  "inter_loop L config rooms width height attempts intersections g =
     (if (intersection_count config < 0 \<or> int (length intersections) < intersection_count config)
         \<and> attempts < 100
      then (case draw L 10 (width - 10) g of
              Inl e \<Rightarrow> Inl e
            | Inr (x, g1) \<Rightarrow>
          (case draw L 10 (height - 10) g1 of
              Inl e \<Rightarrow> Inl e
            | Inr (y, g2) \<Rightarrow>
                let far_enough = \<not> list_ex (\<lambda>r. x \<ge> rx r - 5 \<and> x \<le> rx r + rw r + 5 \<and>
                                                 y \<ge> ry r - 5 \<and> y \<le> ry r + rh r + 5) rooms
                in inter_loop L config rooms width height (attempts + 1)
                     (if far_enough
                      then intersections @ [\<lparr> centerX = x, centerY = y, isize = intersection_size config,
                                              connectionCount = 4, connections = [] \<rparr>]
                      else intersections) g2))
      else Inr (intersections, g))"
  by pat_completeness auto
termination
  by (relation "measure (\<lambda>(L, config, rooms, width, height, attempts, intersections, g).
                   nat (100 - attempts))") auto

definition generateIntersections ::
  "'g lib \<Rightarrow> DungeonConfig \<Rightarrow> Room list \<Rightarrow> int \<Rightarrow> int \<Rightarrow> 'g \<Rightarrow> error + (Intersection list \<times> 'g)" where
  "generateIntersections L config rooms width height g =
     inter_loop L config rooms width height 0 [] g"

text \<open>\<open>placeIntersection\<close> reads \<^verbatim>\<open>grid[0].size()\<close>.\<close>

definition placeIntersection :: "int list list \<Rightarrow> Intersection \<Rightarrow> error + int list list" where
  "placeIntersection grid hub =
     (if grid = [] then Inl OutOfRange
      else
        let r = isize hub
        in Inr (fold (\<lambda>(x, y) gr. createCorridorTile gr x y (int (length (grid ! 0))) (int (length grid)))
                  (concat (map (\<lambda>y. map (\<lambda>x. (x, y)) [centerX hub - r..centerX hub + r])
                             [centerY hub - r..centerY hub + r]))
                  grid))"

text \<open>A step of a loop over corridors, on the grid and the random engine, stopping at
  the first error.\<close>

definition corridor_step ::
  "'g lib \<Rightarrow> DungeonConfig \<Rightarrow> int \<Rightarrow> int \<Rightarrow> (int \<times> int) \<times> (int \<times> int)
     \<Rightarrow> error + (int list list \<times> 'g) \<Rightarrow> error + (int list list \<times> 'g)" where
  "corridor_step L config width height ends acc =
     (case acc of
        Inl e \<Rightarrow> Inl e
      | Inr (grid, g) \<Rightarrow> (case ends of ((x1, y1), (x2, y2)) \<Rightarrow>
          createSmartCorridor L grid x1 y1 x2 y2 config width height g))"

text \<open>The intersection nearest to a room (Manhattan distance between centres, the first
  one on ties, none at distance 999999 or more).\<close>

definition nearest :: "Room \<Rightarrow> Intersection list \<Rightarrow> Intersection option" where
  "nearest room intersections =
     snd (fold (\<lambda>hub (bestDist, bestInter).
                  let d = \<bar>room_cx room - centerX hub\<bar> + \<bar>room_cy room - centerY hub\<bar>
                  in if d < bestDist then (d, Some hub) else (bestDist, bestInter))
            intersections (999999, None))"

definition connectRoomsViaIntersections ::
  "'g lib \<Rightarrow> int list list \<Rightarrow> Room list \<Rightarrow> Intersection list \<Rightarrow> DungeonConfig \<Rightarrow> int \<Rightarrow> int \<Rightarrow> 'g
     \<Rightarrow> error + (int list list \<times> 'g)" where
  "connectRoomsViaIntersections L grid rooms intersections config width height g =
     (let acc1 = fold (\<lambda>room acc.
                   case nearest room intersections of
                     None \<Rightarrow> acc
                   | Some bestInter \<Rightarrow>
                       corridor_step L config width height
                         ((room_cx room, room_cy room), (centerX bestInter, centerY bestInter)) acc)
                 rooms (Inr (grid, g))
      in if intersections = [] then (case acc1 of Inl e \<Rightarrow> Inl e | Inr v \<Rightarrow> Inl OutOfRange)
         else fold (\<lambda>i acc.
                 corridor_step L config width height
                   ((centerX (intersections ! i), centerY (intersections ! i)),
                    (centerX (intersections ! (i + 1)), centerY (intersections ! (i + 1)))) acc)
               [0..<length intersections - 1] acc1)"

definition generateCorridors ::
  "'g lib \<Rightarrow> int list list \<Rightarrow> Room list \<Rightarrow> DungeonConfig \<Rightarrow> int \<Rightarrow> int \<Rightarrow> 'g
     \<Rightarrow> error + (int list list \<times> 'g)" where
  "generateCorridors L grid rooms config width height g =
     fold (\<lambda>i acc.
        corridor_step L config width height
          ((room_cx (rooms ! (i - 1)), room_cy (rooms ! (i - 1))),
           (room_cx (rooms ! i), room_cy (rooms ! i))) acc)
      [1..<length rooms] (Inr (grid, g))"

text \<open>One iteration of the loop of \<open>addDeadEnds\<close>. The read \<^verbatim>\<open>grid[y][x]\<close> is
  unchecked; the writes are guarded by the margins.\<close>

definition dead_end ::
  "'g lib \<Rightarrow> int \<Rightarrow> int \<Rightarrow> error + (int list list \<times> 'g) \<Rightarrow> error + (int list list \<times> 'g)" where
  "dead_end L width height acc =
     (case acc of
        Inl e \<Rightarrow> Inl e
      | Inr (grid, g) \<Rightarrow>
          (case draw L 1 (width - 2) g of
             Inl e \<Rightarrow> Inl e
           | Inr (x, g1) \<Rightarrow>
          (case draw L 1 (height - 2) g1 of
             Inl e \<Rightarrow> Inl e
           | Inr (y, g2) \<Rightarrow>
               if \<not> in_grid grid x y then Inl OutOfRange
               else if grid_at grid x y = 1
               then
                 (case draw L 5 15 g2 of
                    Inl e \<Rightarrow> Inl e
                  | Inr (len, g3) \<Rightarrow>
                 (case draw L 0 3 g3 of
                    Inl e \<Rightarrow> Inl e
                  | Inr (dir, g4) \<Rightarrow>
                      let dx = (if dir = 0 then 1 else if dir = 1 then -1 else 0);
                          dy = (if dir = 2 then 1 else if dir = 3 then -1 else 0)
                      in Inr (fold (\<lambda>s gr.
                                 let x' = x + s * dx; y' = y + s * dy
                                 in if x' > 0 \<and> x' < width - 1 \<and> y' > 0 \<and> y' < height - 1
                                    then grid_put gr x' y' 1 else gr)
                               [1..len] grid, g4)))
               else Inr (grid, g2))))"

definition addDeadEnds ::
  "'g lib \<Rightarrow> int list list \<Rightarrow> DungeonConfig \<Rightarrow> int \<Rightarrow> int \<Rightarrow> 'g \<Rightarrow> error + (int list list \<times> 'g)" where
  "addDeadEnds L grid config width height g = ((dead_end L width height) ^^ 10) (Inr (grid, g))"

subsection \<open>The entry point generateDungeonMap\<close>

text \<open>Steps 2 to 4: hubs, corridors, the second connection pass, dead ends.\<close>

definition dungeon_layout ::
  "'g lib \<Rightarrow> DungeonConfig \<Rightarrow> Room list \<Rightarrow> int \<Rightarrow> int \<Rightarrow> int list list \<Rightarrow> 'g
     \<Rightarrow> error + (int list list \<times> 'g)" where
  "dungeon_layout L config rooms width height grid g =
     (case (if add_intersections config
            then (case generateIntersections L config rooms width height g of
                    Inl e \<Rightarrow> Inl e
                  | Inr (intersections, g1) \<Rightarrow>
                      (case fold (\<lambda>hub acc. case acc of Inl e \<Rightarrow> Inl e
                                                       | Inr gr \<Rightarrow> placeIntersection gr hub)
                              intersections (Inr grid) of
                         Inl e \<Rightarrow> Inl e
                       | Inr grid1 \<Rightarrow> Inr (intersections, grid1, g1)))
            else Inr ([], grid, g)) of
        Inl e \<Rightarrow> Inl e
      | Inr (intersections, grid1, g1) \<Rightarrow>
          (case (if add_intersections config \<and> intersections \<noteq> []
                 then connectRoomsViaIntersections L grid1 rooms intersections config width height g1
                 else generateCorridors L grid1 rooms config width height g1) of
             Inl e \<Rightarrow> Inl e
           | Inr (grid2, g2) \<Rightarrow>
               (case (if connect_all_rooms config \<and> length rooms > 1
                      then generateCorridors L grid2 rooms config width height g2
                      else Inr (grid2, g2)) of
                  Inl e \<Rightarrow> Inl e
                | Inr (grid3, g3) \<Rightarrow>
                    if add_dead_ends config then addDeadEnds L grid3 config width height g3
                    else Inr (grid3, g3))))"

text \<open>Step 5, the cave overlay: plain noise at scale 0.1 against \<open>cave_threshold\<close>.\<close>

definition cave_overlay :: "simplex \<Rightarrow> DungeonConfig \<Rightarrow> int \<Rightarrow> int \<Rightarrow> int list list \<Rightarrow> int list list" where
  "cave_overlay sn config width height grid =
     fold (\<lambda>(x, y) gr.
        let n = noise_fn sn (real_of_int x * 0.1) (real_of_int y * 0.1)
        in if n > cave_threshold config then grid_put gr x y 1 else gr)
      (cells width height) grid"

text \<open>Step 6, the body of the commit loop for one cell.\<close>

definition commit_cell ::
  "'g lib \<Rightarrow> DungeonConfig \<Rightarrow> int list list \<Rightarrow> int \<Rightarrow> int \<Rightarrow> int \<Rightarrow> int \<Rightarrow> int \<times> int \<Rightarrow> host_map \<Rightarrow> host_map" where
  "commit_cell L config grid width height offsetX offsetY c m =
     (case c of (x, y) \<Rightarrow>
        let cell_type = grid_at grid x y;
            pos = (x + offsetX, y + offsetY, dungeon_target_floor config);
            t = (case m pos of None \<Rightarrow> createTile | Some t \<Rightarrow> t);
            t1 = t\<lparr>ground := None\<rparr>;
            t2 = (if cell_type = 1 then t1\<lparr>ground := Item_Create L (floor_id config)\<rparr>
                  else if isWallPosition grid x y width height
                  then (let t' = t1\<lparr>ground := Item_Create L (floor_id config)\<rparr>
                        in case Item_Create L (wall_id config) of
                             None \<Rightarrow> t'
                           | Some wall \<Rightarrow> t'\<lparr>items := items t' @ [wall]\<rparr>)
                  else t1)
        in m(pos \<mapsto> t2))"

text \<open>The prologue: \<^verbatim>\<open>seedRandom(seed); if (noise) delete noise; noise = new SimplexNoise();\<close>
  with the default argument \<^verbatim>\<open>seed = 0\<close> of the constructor.\<close>

definition dungeon_reseed :: "'g lib \<Rightarrow> 'g generator \<Rightarrow> string \<Rightarrow> 'g generator" where
  "dungeon_reseed L g seed = (seedRandom L g seed)\<lparr>noise := SimplexNoise L 0\<rparr>"

definition generateDungeonMap ::
  "'g lib \<Rightarrow> 'g generator \<Rightarrow> host_map option \<Rightarrow> DungeonConfig \<Rightarrow> int \<Rightarrow> int \<Rightarrow> string \<Rightarrow> int \<Rightarrow> int
     \<Rightarrow> error + (bool \<times> 'g generator \<times> host_map option)" where
  "generateDungeonMap L g mp config width height seed startX startY =
     (case mp of
        None \<Rightarrow> Inr (False, g, None)
      | Some m \<Rightarrow>
          let g0 = dungeon_reseed L g seed
          in if width < 0 \<or> height < 0 then Inl BadAlloc
             else
               let grid = replicate (nat height) (replicate (nat width) 0)
               in (case generateRooms L config width height (rng g0) of
                     Inl e \<Rightarrow> Inl e
                   | Inr (rooms, r1) \<Rightarrow>
                  (case carve_rooms rooms grid of
                     Inl e \<Rightarrow> Inl e
                   | Inr grid1 \<Rightarrow>
                       let (a1, g1) = invoke (g0\<lparr>rng := r1\<rparr>) 30 100
                       in if \<not> a1 then Inr (False, g1, Some m)
                          else
                            (case dungeon_layout L config rooms width height grid1 (rng g1) of
                               Inl e \<Rightarrow> Inl e
                             | Inr (grid2, r2) \<Rightarrow>
                                 let (a2, g2) = invoke (g1\<lparr>rng := r2\<rparr>) 60 100
                                 in if \<not> a2 then Inr (False, g2, Some m)
                                    else
                                      let grid3 = (if generate_caves config
                                                   then cave_overlay (noise g2) config width height grid2
                                                   else grid2);
                                          (a3, g3) = invoke g2 80 100
                                      in if \<not> a3 then Inr (False, g3, Some m)
                                         else Inr (True, g3,
                                                Some (fold (commit_cell L config grid3 width height startX startY)
                                                        (cells width height) m))))))"

declare rooms_loop.simps [simp del] inter_loop.simps [simp del] astar_loop.simps [simp del]

section \<open>Properties\<close>

subsection \<open>A library instance for the concrete instances\<close>

text \<open>It reads a seed of decimal digits as a number and hashes any other seed to its
  length; its random engine is a counter.\<close>

definition parse_digits :: "string \<Rightarrow> 64 word option" where
  "parse_digits s =
     (if s \<noteq> [] \<and> list_all (\<lambda>c. 48 \<le> (of_char c :: nat) \<and> (of_char c :: nat) \<le> 57) s
      then Some (of_nat (foldl (\<lambda>a c. 10 * a + (of_char c - 48)) 0 s))
      else None)"

definition test_lib :: "nat lib" where
  "test_lib = \<lparr> stoull = parse_digits, str_hash = (\<lambda>s. of_nat (length s)),
                mt_seed = unat, mt_next = (\<lambda>g. (of_nat g, g + 1)),
                uniform_int = (\<lambda>a b g. (a + int g mod (b - a + 1), g + 1)),
                item_valid = (\<lambda>i. True), pq_choose = (\<lambda>q. 0) \<rparr>"

text \<open>The default member initialisers of \<open>IslandConfig\<close> and \<open>DungeonConfig\<close>.\<close>

definition default_island :: IslandConfig where
  "default_island = \<lparr> noise_scale = 0.01, noise_octaves = 4, noise_persistence = 0.5,
     noise_lacunarity = 2.0, island_size = 0.8, island_falloff = 2.0, island_threshold = 0.3,
     water_id = 4608, ground_id = 4526, enable_cleanup = True, min_land_patch_size = 4,
     max_water_hole_size = 3, smoothing_passes = 2, target_floor = 7 \<rparr>"

definition default_dungeon :: DungeonConfig where
  "default_dungeon = \<lparr> dungeon_target_floor = 7, wall_id = 1030, floor_id = 406,
     room_count = 15, min_room_size = 5, max_room_size = 12, corridor_width = 2,
     generate_caves = True, cave_scale = 0.05, cave_threshold = 0.4,
     dungeon_enable_cleanup = True, connect_all_rooms = True, add_dead_ends = True,
     use_smart_pathfinding = True, add_intersections = True, intersection_count = 5,
     intersection_size = 2 \<rparr>"

text \<open>A dungeon configuration that draws nothing: no rooms, no hubs, no dead ends.\<close>

definition bare_dungeon :: DungeonConfig where
  "bare_dungeon = default_dungeon\<lparr>room_count := 0, add_intersections := False, add_dead_ends := False\<rparr>"

lemma progress_callback_seedRandom [simp]:
  "progress_callback (seedRandom L g seed) = progress_callback g"
  by (simp add: seedRandom_def Let_def)

lemma calls_seedRandom [simp]: "calls (seedRandom L g seed) = calls g"
  by (simp add: seedRandom_def Let_def)

lemma cells_empty [simp]: "width \<le> 0 \<Longrightarrow> cells width height = []"
  by (simp add: cells_def)

subsection \<open>Invalid input\<close>

lemma island_rejects_invalid_input:
  "mp = None \<or> width \<le> 0 \<or> height \<le> 0 \<Longrightarrow>
   generateIslandMap L g mp config width height seed startX startY = (False, g, mp)"
  by (auto simp: generateIslandMap_def split: option.splits)

lemma dungeon_rejects_null_map:
  "generateDungeonMap L g None config width height seed startX startY = Inr (False, g, None)"
  by (simp add: generateDungeonMap_def)

text \<open>
  Claim C2 says that both entry points return false, without a write, when the map
  pointer is null or the width or height is not positive. \<open>generateIslandMap\<close> does
  (\<open>island_rejects_invalid_input\<close>), and \<open>generateDungeonMap\<close> does for a null map
  (\<open>dungeon_rejects_null_map\<close>), but it has no check of the dimensions. The theorem
  evaluates it at width 0 and height 5, with no callback registered and a configuration
  that asks for no rooms, no hubs and no dead ends (the steps that would draw from an
  empty range): the call returns true, the map untouched.
\<close>

theorem dungeon_accepts_zero_width:
  "case generateDungeonMap L (setProgressCallback g None) (Some m)
          (config\<lparr>room_count := 0, add_intersections := False, add_dead_ends := False\<rparr>)
          0 5 seed startX startY of
     Inl e \<Rightarrow> False
   | Inr (b, g', mp') \<Rightarrow> b \<and> mp' = Some m"
  by (simp add: generateDungeonMap_def dungeon_reseed_def generateRooms_def carve_rooms_def
      invoke_def setProgressCallback_def dungeon_layout_def generateCorridors_def cave_overlay_def
      rooms_loop.simps Let_def)

subsection \<open>Cancellation\<close>

lemma progress_callback_invoke [simp]:
  "progress_callback (snd (invoke g c t)) = progress_callback g"
  by (simp add: invoke_def split: option.splits)

lemma progress_callback_placeTiles_loop [simp]:
  "progress_callback (fst (placeTiles_loop L config hm tot ox oy cs n g m)) = progress_callback g"
proof (induction cs arbitrary: n g m)
  case Nil
  then show ?case by simp
next
  case (Cons c cs)
  obtain x y where c: "c = (x, y)" by (cases c)
  show ?case
    using Cons.IH [of "n + 1" g]
      Cons.IH [of "n + 1" "snd (invoke g (40 + trunc (real_of_int (n + 1) / real_of_int tot * 30)) 100)"]
    by (simp add: c Let_def case_prod_unfold)
qed

lemma progress_callback_placeTiles [simp]:
  "progress_callback (fst (placeTiles L g m hm config w h ox oy)) = progress_callback g"
  by (simp add: placeTiles_def)

lemma progress_callback_dungeon_reseed [simp]:
  "progress_callback (dungeon_reseed L g seed) = progress_callback g"
  by (simp add: dungeon_reseed_def seedRandom_def Let_def)

lemma calls_MapGenerator [simp]: "calls (MapGenerator L) = []"
  by (simp add: MapGenerator_def)

lemma progress_callback_MapGenerator [simp]: "progress_callback (MapGenerator L) = None"
  by (simp add: MapGenerator_def)

lemma cells_1_1 [simp]: "cells 1 1 = [(0, 0)]"
  by (simp add: cells_def upto.simps)

text \<open>The tiles the placement loop writes for a list of cells.\<close>

definition place_all ::
  "'g lib \<Rightarrow> IslandConfig \<Rightarrow> dbl list list \<Rightarrow> int \<Rightarrow> int \<Rightarrow> (int \<times> int) list \<Rightarrow> host_map \<Rightarrow> host_map" where
  "place_all L config heightMap offsetX offsetY cs m =
     fold (\<lambda>c. place_tile L config heightMap offsetX offsetY (fst c) (snd c)) cs m"

lemma dom_place_tile:
  "dom (place_tile L config hm ox oy x y m) = insert (x + ox, y + oy, target_floor config) (dom m)"
  by (simp add: place_tile_def Let_def)

lemma dom_place_all:
  "dom (place_all L config hm ox oy cs m) =
     dom m \<union> (\<lambda>c. (fst c + ox, snd c + oy, target_floor config)) ` set cs"
  unfolding place_all_def
  by (induction cs arbitrary: m) (auto simp: dom_place_tile)

text \<open>The placement loop up to a progress report that the callback answers with false:
  the cells before the report are written, the report is recorded, the loop is left.\<close>

lemma placeTiles_loop_report:
  assumes "progress_callback g = Some cb"
  shows "cs \<noteq> [] \<Longrightarrow> (\<forall>k. 0 < k \<and> k < length cs \<longrightarrow> (n + int k) mod 1000 \<noteq> 0) \<Longrightarrow>
     (n + int (length cs)) mod 1000 = 0 \<Longrightarrow>
     \<not> cb (40 + trunc (real_of_int (n + int (length cs)) / real_of_int tot * 30)) 100 \<Longrightarrow>
     placeTiles_loop L config hm tot ox oy (cs @ rest) n g m =
       (g\<lparr>calls := calls g @
             [(40 + trunc (real_of_int (n + int (length cs)) / real_of_int tot * 30), 100, False)]\<rparr>,
        place_all L config hm ox oy cs m)"
proof (induction cs arbitrary: n m)
  case Nil
  from Nil(1) show ?case by simp
next
  case (Cons c cs)
  obtain x y where c: "c = (x, y)" by (cases c)
  let ?m = "place_tile L config hm ox oy x y m"
  have step: "place_all L config hm ox oy (c # cs) m = place_all L config hm ox oy cs ?m"
    by (simp add: place_all_def c)
  show ?case
  proof (cases "cs = []")
    case True
    have z: "(n + 1) mod 1000 = 0" using Cons.prems(3) True by simp
    have no: "\<not> cb (40 + trunc (real_of_int (n + 1) / real_of_int tot * 30)) 100"
      using Cons.prems(4) True by simp
    have "placeTiles_loop L config hm tot ox oy ((x, y) # rest) n g m =
        (g\<lparr>calls := calls g @ [(40 + trunc (real_of_int (n + 1) / real_of_int tot * 30), 100, False)]\<rparr>, ?m)"
      using assms z no by (simp add: Let_def invoke_def)
    then show ?thesis using True by (simp add: c place_all_def)
  next
    case False
    then have l: "1 < length (c # cs)" by (cases cs) simp_all
    from Cons.prems(2) [rule_format, of 1] l have one: "(n + 1) mod 1000 \<noteq> 0" by simp
    have quiet: "\<forall>k. 0 < k \<and> k < length cs \<longrightarrow> (n + 1 + int k) mod 1000 \<noteq> 0"
    proof (intro allI impI)
      fix k assume k: "0 < k \<and> k < length cs"
      from Cons.prems(2) [rule_format, of "Suc k"] k have "(n + int (Suc k)) mod 1000 \<noteq> 0" by simp
      then show "(n + 1 + int k) mod 1000 \<noteq> 0" by (simp add: add.assoc)
    qed
    have e: "n + int (length (c # cs)) = n + 1 + int (length cs)" by simp
    have z: "(n + 1 + int (length cs)) mod 1000 = 0" using Cons.prems(3) unfolding e .
    have no: "\<not> cb (40 + trunc (real_of_int (n + 1 + int (length cs)) / real_of_int tot * 30)) 100"
      using Cons.prems(4) unfolding e .
    have loop: "placeTiles_loop L config hm tot ox oy ((x, y) # (cs @ rest)) n g m =
        placeTiles_loop L config hm tot ox oy (cs @ rest) (n + 1) g ?m"
      using one by (simp add: Let_def)
    from Cons.IH [OF False quiet z no, of ?m]
    show ?thesis unfolding e step by (simp only: c append_Cons loop)
  qed
qed

text \<open>A row of 2000 cells: the first thousand and the second.\<close>

definition first_thousand :: "(int \<times> int) list" where
  "first_thousand = map (\<lambda>x. (x, 0)) [0..999]"

definition second_thousand :: "(int \<times> int) list" where
  "second_thousand = map (\<lambda>x. (x, 0)) [1000..1999]"

lemma length_first_thousand: "length first_thousand = 1000"
  unfolding first_thousand_def by (simp only: length_map length_upto)

lemma set_first_thousand: "set first_thousand = {(x, 0) | x. 0 \<le> x \<and> x < 1000}"
  unfolding first_thousand_def by (simp only: set_map set_upto) auto

lemma cells_row: "cells w 1 = map (\<lambda>x. (x, 0)) [0..w - 1]"
proof -
  have "[0..1 - 1 :: int] = [0]" by (simp add: upto_rec1)
  then show ?thesis by (simp add: cells_def)
qed

lemma cells_2000_1: "cells 2000 1 = first_thousand @ second_thousand"
proof -
  have a: "(2000 :: int) - 1 = 1999" "(999 :: int) + 1 = 1000" by simp_all
  have "[0..1999 :: int] = [0..999] @ [999 + 1..1999]" by (rule upto_split2) simp_all
  then have "[0..2000 - 1 :: int] = [0..999] @ [1000..1999]" by (simp only: a)
  then show ?thesis
    unfolding first_thousand_def second_thousand_def cells_row by (simp only: map_append)
qed

lemma placeTiles_half_row:
  assumes "progress_callback g = Some cb" "\<not> cb 55 100"
  shows "placeTiles L g m hm config 2000 1 ox oy =
     (g\<lparr>calls := calls g @ [(55, 100, False)]\<rparr>, place_all L config hm ox oy first_thousand m)"
proof -
  have ne: "first_thousand \<noteq> []" using length_first_thousand by auto
  have tr: "40 + trunc (real_of_int (0 + int (length first_thousand)) / real_of_int (2000 * 1) * 30) = 55"
    by (simp add: length_first_thousand trunc_def)
  have quiet: "\<forall>k. 0 < k \<and> k < length first_thousand \<longrightarrow> (0 + int k) mod 1000 \<noteq> 0"
    by (auto simp: length_first_thousand)
  have z: "(0 + int (length first_thousand)) mod 1000 = 0" by (simp add: length_first_thousand)
  have no: "\<not> cb (40 + trunc (real_of_int (0 + int (length first_thousand)) / real_of_int (2000 * 1) * 30)) 100"
    unfolding tr by (rule assms(2))
  from placeTiles_loop_report [OF assms(1) ne quiet z no, of L config hm ox oy second_thousand m]
  show ?thesis unfolding tr placeTiles_def cells_2000_1 .
qed

text \<open>
  Claim C1 says that an entry point returns false whenever the progress callback answers
  false at any of its invocations during the call, the writes made so far left in place.

  \<open>placeTiles\<close> and \<open>cleanupTerrain\<close> test the answer to their own reports and leave with
  \<^verbatim>\<open>return; // Cancelled\<close>, but they are \<^verbatim>\<open>void\<close>: the cancellation ends the helper only,
  and \<open>generateIslandMap\<close> goes on to the completion report and returns true. The
  theorem is a call on a row of 2000 tiles, cleanup disabled, with a callback that answers
  false to the progress value 55 and true to every other: the entry point asks at 0, 20
  and 40, the placement loop reports \<open>40 + 1000 / 2000 * 30 = 55\<close> after its thousandth
  tile, gets false and stops, the entry point reports 100 and returns true, with the first
  thousand tiles written and the second thousand left out.
\<close>

theorem helper_cancellation_is_swallowed:
  "fst (generateIslandMap L (setProgressCallback g (Some (\<lambda>current tot. current \<noteq> 55)))
          (Some Map.empty) (config\<lparr>enable_cleanup := False\<rparr>) 2000 1 seed 0 0) = True
   \<and> calls (fst (snd (generateIslandMap L (setProgressCallback g (Some (\<lambda>current tot. current \<noteq> 55)))
          (Some Map.empty) (config\<lparr>enable_cleanup := False\<rparr>) 2000 1 seed 0 0))) =
       calls g @ [(0, 100, True), (20, 100, True), (40, 100, True), (55, 100, False), (100, 100, True)]
   \<and> (\<exists>m. snd (snd (generateIslandMap L (setProgressCallback g (Some (\<lambda>current tot. current \<noteq> 55)))
          (Some Map.empty) (config\<lparr>enable_cleanup := False\<rparr>) 2000 1 seed 0 0)) = Some m
        \<and> dom m = {(x, 0, target_floor config) | x. 0 \<le> x \<and> x < 1000})"
proof -
  let ?cb = "\<lambda>current tot :: int. current \<noteq> 55"
  let ?c = "config\<lparr>enable_cleanup := False\<rparr>"
  let ?g0 = "seedRandom L (setProgressCallback g (Some ?cb)) seed"
  let ?g3 = "?g0\<lparr>calls := calls g @ [(0, 100, True), (20, 100, True), (40, 100, True)]\<rparr>"
  let ?hm = "applyIslandMask (generateHeightMap (noise ?g0) ?c 2000 1) ?c 2000 1"
  have cb0: "progress_callback ?g0 = Some ?cb" "calls ?g0 = calls g"
    by (simp_all add: seedRandom_def setProgressCallback_def Let_def)
  have i3: "snd (invoke (snd (invoke (snd (invoke ?g0 0 100)) 20 100)) 40 100) = ?g3"
    using cb0 by (simp add: invoke_def)
  have a: "fst (invoke ?g0 0 100)" "fst (invoke (snd (invoke ?g0 0 100)) 20 100)"
    "fst (invoke (snd (invoke (snd (invoke ?g0 0 100)) 20 100)) 40 100)"
    using cb0 by (simp_all add: invoke_def)
  have n: "noise (snd (invoke ?g0 0 100)) = noise ?g0" by (simp add: invoke_def split: option.splits)
  have cb3: "progress_callback ?g3 = Some ?cb" using cb0 by simp
  let ?m = "place_all L ?c ?hm 0 0 first_thousand Map.empty"
  have p: "placeTiles L ?g3 Map.empty ?hm ?c 2000 1 0 0 =
      (?g3\<lparr>calls := calls ?g3 @ [(55, 100, False)]\<rparr>, ?m)"
    by (rule placeTiles_half_row [OF cb3]) simp
  have r: "generateIslandMap L (setProgressCallback g (Some ?cb)) (Some Map.empty) ?c 2000 1 seed 0 0 =
      (True, ?g3\<lparr>calls := calls g @ [(0, 100, True), (20, 100, True), (40, 100, True),
                                      (55, 100, False), (100, 100, True)]\<rparr>, Some ?m)"
    using a i3 n p cb0 by (simp add: generateIslandMap_def Let_def case_prod_unfold invoke_def)
  have "(\<lambda>c. (fst c + 0, snd c + 0, target_floor ?c)) ` set first_thousand =
      {(x, 0, target_floor config) | x. 0 \<le> x \<and> x < 1000}"
    unfolding set_first_thousand by force
  then have d: "dom ?m = {(x, 0, target_floor config) | x. 0 \<le> x \<and> x < 1000}"
    by (simp only: dom_place_all dom_empty Un_empty_left)
  show ?thesis unfolding r using d by simp
qed

subsection \<open>The ground ids of a generated island\<close>

text \<open>At the origin the noise is 0 whatever the permutation: the first corner has offset
  \<open>(0, 0)\<close>, the other two are beyond the kernel radius.\<close>

lemma sqrt3_sq [simp]: "sqrt 3 * sqrt 3 = 3"
  by simp

lemma G2_corner1: "G2 * G2 + (G2 - 1) * (G2 - 1) = 2 / 3"
  by (simp add: G2_def field_simps)

lemma G2_corner2: "(2 * G2 - 1) * (2 * G2 - 1) = 1 / 3"
  by (simp add: G2_def field_simps)

lemma corner_origin [simp]: "corner g 0 0 = 0"
  by (simp add: corner_def dot_def Let_def case_prod_unfold)

lemma corner_far1 [simp]: "corner g G2 (G2 - 1) = 0"
proof -
  have "0.5 - G2 * G2 - (G2 - 1) * (G2 - 1) = - (1 / 6)" using G2_corner1 by simp
  then show ?thesis by (simp add: corner_def Let_def)
qed

lemma corner_far2 [simp]: "corner g (2 * G2 - 1) (2 * G2 - 1) = 0"
proof -
  have "0.5 - (2 * G2 - 1) * (2 * G2 - 1) - (2 * G2 - 1) * (2 * G2 - 1) = - (1 / 6)"
    using G2_corner2 by simp
  then show ?thesis by (simp add: corner_def Let_def)
qed

lemma fastfloor_0 [simp]: "fastfloor 0 = 0"
  by (simp add: fastfloor_def trunc_def)

lemma noise_origin [simp]: "noise_fn sn 0 0 = 0"
  by (simp add: noise_fn_def Let_def)


text \<open>A configuration with terrain ids of its own and a low threshold.\<close>

definition custom_island :: IslandConfig where
  "custom_island = default_island\<lparr>water_id := 200, ground_id := 100, island_threshold := - 0.5\<rparr>"

lemma fractal_origin: "fractal sn 0 0 4 (1 / 2) 2 = Fin 0"
  by (simp add: fractal_def ddiv_def eval_nat_numeral)

lemma heightMap_1_1:
  "generateHeightMap sn custom_island 1 1 = [[Fin (1 / 2)]]"
  by (simp add: generateHeightMap_def custom_island_def default_island_def upto.simps fractal_origin
      Let_def)

lemma mask_1_1:
  "applyIslandMask [[Fin (1 / 2)]] custom_island 1 1 = [[Fin (1 / 2)]]"
  by (simp add: applyIslandMask_def mask_cell_def custom_island_def default_island_def upto.simps
      getDistance_def trunc_def ddiv_def applyFalloff_def std_max_def std_min_def dsub_def Let_def)

lemma place_1_1:
  "item_valid L 100 \<Longrightarrow> progress_callback g = None \<Longrightarrow>
   placeTiles L g Map.empty [[Fin (1 / 2)]] custom_island 1 1 0 0 =
     (g, [(0, 0, 7) \<mapsto> \<lparr>ground = Some 100, items = []\<rparr>])"
  by (simp add: placeTiles_def place_tile_def custom_island_def default_island_def
      Item_Create_def createTile_def Let_def)


lemma scan4_1_1 [simp]: "scan4 m z 1 1 t ox oy (0, 0) qv = qv"
  by (cases qv) (simp add: scan4_def neighbours4_def visit_def)

lemma remove_1_1:
  "item_valid L 4608 \<Longrightarrow>
   removeSmallPatches L [(0, 0, 7) \<mapsto> \<lparr>ground = Some 100, items = []\<rparr>] 100 4 1 1 0 0 =
     [(0, 0, 7) \<mapsto> \<lparr>ground = Some 4608, items = []\<rparr>]"
  by (simp add: removeSmallPatches_def patch_cell_def floodFillCount_def ground_id_at_def
      replace_ground_def Item_Create_def Let_def)

lemma fill_1_1:
  "fillSmallHoles L [(0, 0, 7) \<mapsto> \<lparr>ground = Some 4608, items = []\<rparr>] 200 100 3 1 1 0 0 =
     [(0, 0, 7) \<mapsto> \<lparr>ground = Some 4608, items = []\<rparr>]"
  by (simp add: fillSmallHoles_def removeSmallPatches_def patch_cell_def ground_id_at_def Let_def)

lemma smooth_pass_1_1 [simp]: "smooth_pass L config 1 1 ox oy m = m"
  by (simp add: smooth_pass_def)

lemma smooth_1_1 [simp]: "smoothCoastline L m config 1 1 ox oy = m"
proof -
  have "((smooth_pass L config 1 1 ox oy) ^^ n) m = m" for n
    by (induction n) simp_all
  then show ?thesis by (simp add: smoothCoastline_def)
qed

lemma cleanup_1_1:
  "item_valid L 4608 \<Longrightarrow> progress_callback g = None \<Longrightarrow>
   cleanupTerrain L g [(0, 0, 7) \<mapsto> \<lparr>ground = Some 100, items = []\<rparr>] custom_island 1 1 0 0 =
     (g, [(0, 0, 7) \<mapsto> \<lparr>ground = Some 4608, items = []\<rparr>])"
  by (simp add: cleanupTerrain_def remove_1_1 fill_1_1 invoke_def custom_island_def default_island_def)

text \<open>
  Claim C3 says that after a successful \<open>generateIslandMap\<close> every tile of the rectangle
  has a ground item whose id is \<open>water_id\<close> or \<open>ground_id\<close> of the configuration, also
  with cleanup enabled. The cleanup does not use the configured ids for its replacement:
  \<open>removeSmallPatches\<close> replaces a small patch by the constant 4608 (or 4526 when the
  patch is 4608), and \<open>fillSmallHoles\<close> ignores its parameter \<open>fill_id\<close>. The theorem
  evaluates a call on a one-tile map with \<open>water_id = 200\<close>, \<open>ground_id = 100\<close>, no
  callback and an item factory that knows every id: the height at the origin is 0.5, above
  the threshold, the tile is classified as ground (100), the patch of one tile is below
  \<open>min_land_patch_size = 4\<close>, and the call returns true with the tile's ground id 4608.
\<close>

theorem cleanup_installs_third_id:
  "fst (generateIslandMap (L\<lparr>item_valid := \<lambda>i. True\<rparr>) (setProgressCallback g None)
          (Some Map.empty) custom_island 1 1 seed 0 0)
   \<and> snd (snd (generateIslandMap (L\<lparr>item_valid := \<lambda>i. True\<rparr>) (setProgressCallback g None)
          (Some Map.empty) custom_island 1 1 seed 0 0))
       = Some [(0, 0, 7) \<mapsto> \<lparr>ground = Some 4608, items = []\<rparr>]"
proof -
  let ?L = "L\<lparr>item_valid := \<lambda>i. True\<rparr>"
  let ?g = "seedRandom ?L (setProgressCallback g None) seed"
  have cb: "progress_callback ?g = None" by (simp add: setProgressCallback_def)
  have en: "enable_cleanup custom_island" by (simp add: custom_island_def default_island_def)
  show ?thesis
    by (simp add: generateIslandMap_def invoke_def setProgressCallback_def en heightMap_1_1
        mask_1_1 place_1_1 cleanup_1_1 Let_def)
qed

subsection \<open>Determinism\<close>

text \<open>Two states of the generator object that agree on its C++ members.\<close>

definition same_members :: "'g generator \<Rightarrow> 'g generator \<Rightarrow> bool" where
  "same_members g1 g2 \<longleftrightarrow>
     progress_callback g1 = progress_callback g2 \<and> noise g1 = noise g2 \<and> rng g1 = rng g2"

lemma same_members_seedRandom:
  "progress_callback g1 = progress_callback g2 \<Longrightarrow>
   same_members (seedRandom L g1 seed) (seedRandom L g2 seed)"
  by (simp add: same_members_def seedRandom_def Let_def)

lemma same_members_invoke:
  "same_members g1 g2 \<Longrightarrow>
   fst (invoke g1 c t) = fst (invoke g2 c t) \<and> same_members (snd (invoke g1 c t)) (snd (invoke g2 c t))"
  by (auto simp: same_members_def invoke_def split: option.splits)

lemma same_members_placeTiles_loop:
  "same_members g1 g2 \<Longrightarrow>
   snd (placeTiles_loop L config hm tot ox oy cs n g1 m) = snd (placeTiles_loop L config hm tot ox oy cs n g2 m)
   \<and> same_members (fst (placeTiles_loop L config hm tot ox oy cs n g1 m))
                   (fst (placeTiles_loop L config hm tot ox oy cs n g2 m))"
proof (induction cs arbitrary: n g1 g2 m)
  case Nil
  then show ?case by simp
next
  case (Cons c cs)
  obtain x y where c: "c = (x, y)" by (cases c)
  let ?p = "40 + trunc (real_of_int (n + 1) / real_of_int tot * 30)"
  from Cons.prems have cb: "progress_callback g1 = progress_callback g2"
    by (simp add: same_members_def)
  from same_members_invoke [OF Cons.prems, of ?p 100]
  have a: "fst (invoke g1 ?p 100) = fst (invoke g2 ?p 100)"
    and s: "same_members (snd (invoke g1 ?p 100)) (snd (invoke g2 ?p 100))" by simp_all
  show ?case
    using Cons.IH [OF Cons.prems] Cons.IH [OF s] a s cb
    by (simp add: c Let_def case_prod_unfold)
qed

lemma same_members_cleanupTerrain:
  "same_members g1 g2 \<Longrightarrow>
   snd (cleanupTerrain L g1 m config w h ox oy) = snd (cleanupTerrain L g2 m config w h ox oy)
   \<and> same_members (fst (cleanupTerrain L g1 m config w h ox oy)) (fst (cleanupTerrain L g2 m config w h ox oy))"
proof -
  assume s: "same_members g1 g2"
  note i1 = same_members_invoke [OF s, of 80 100]
  note i2 = same_members_invoke [OF i1 [THEN conjunct2], of 90 100]
  show ?thesis using i1 i2
    by (simp add: cleanupTerrain_def Let_def case_prod_unfold)
qed

lemma island_deterministic:
  assumes "progress_callback g1 = progress_callback g2"
  shows "fst (generateIslandMap L g1 mp config w h seed sx sy) = fst (generateIslandMap L g2 mp config w h seed sx sy)
       \<and> snd (snd (generateIslandMap L g1 mp config w h seed sx sy)) = snd (snd (generateIslandMap L g2 mp config w h seed sx sy))"
proof -
  note s0 = same_members_seedRandom [OF assms, of L seed]
  note i1 = same_members_invoke [OF s0, of 0 100]
  note i2 = same_members_invoke [OF i1 [THEN conjunct2], of 20 100]
  note i3 = same_members_invoke [OF i2 [THEN conjunct2], of 40 100]
  have n1: "noise (snd (invoke (seedRandom L g1 seed) 0 100)) = noise (snd (invoke (seedRandom L g2 seed) 0 100))"
    using i1 by (simp add: same_members_def)
  let ?hm = "applyIslandMask (generateHeightMap (noise (snd (invoke (seedRandom L g2 seed) 0 100))) config w h) config w h"
  let ?g3 = "\<lambda>g. snd (invoke (snd (invoke (snd (invoke (seedRandom L g seed) 0 100)) 20 100)) 40 100)"
  have p: "snd (placeTiles L (?g3 g1) m ?hm config w h sx sy) = snd (placeTiles L (?g3 g2) m ?hm config w h sx sy)"
    and ps: "same_members (fst (placeTiles L (?g3 g1) m ?hm config w h sx sy)) (fst (placeTiles L (?g3 g2) m ?hm config w h sx sy))"
    for m
    using same_members_placeTiles_loop [OF i3 [THEN conjunct2]] by (simp_all add: placeTiles_def)
  note i5 = same_members_invoke [OF ps, of _ 70 100]
  note c6 = same_members_cleanupTerrain [OF i5 [THEN conjunct2]]
  show ?thesis
    using i1 i2 i3 n1 p i5 c6
    by (simp add: generateIslandMap_def Let_def case_prod_unfold split: option.splits)
qed


lemma same_members_dungeon_reseed:
  "progress_callback g1 = progress_callback g2 \<Longrightarrow>
   same_members (dungeon_reseed L g1 seed) (dungeon_reseed L g2 seed)"
  by (simp add: same_members_def dungeon_reseed_def seedRandom_def Let_def)

lemma same_members_rng_update:
  "same_members g1 g2 \<Longrightarrow> same_members (g1\<lparr>rng := r\<rparr>) (g2\<lparr>rng := r\<rparr>)"
  by (simp add: same_members_def)

text \<open>What a call leaves behind for its caller: the returned flag and the host map.\<close>

definition outcome :: "bool \<times> 'g generator \<times> host_map option \<Rightarrow> bool \<times> host_map option" where
  "outcome r = (fst r, snd (snd r))"

lemma dungeon_deterministic:
  assumes "progress_callback g1 = progress_callback g2"
  shows "map_sum id outcome (generateDungeonMap L g1 mp config w h seed sx sy) =
         map_sum id outcome (generateDungeonMap L g2 mp config w h seed sx sy)"
proof (cases mp)
  case None
  then show ?thesis by (simp add: generateDungeonMap_def outcome_def)
next
  case (Some m)
  note s0 = same_members_dungeon_reseed [OF assms, of L seed]
  then have r0: "rng (dungeon_reseed L g1 seed) = rng (dungeon_reseed L g2 seed)"
    by (simp add: same_members_def)
  show ?thesis
  proof (cases "w < 0 \<or> h < 0")
    case True
    then show ?thesis using Some by (auto simp: generateDungeonMap_def)
  next
    case False
    show ?thesis
    proof (cases "generateRooms L config w h (rng (dungeon_reseed L g2 seed))")
      case (Inl e)
      then show ?thesis using Some False r0 by (simp add: generateDungeonMap_def)
    next
      case (Inr rr)
      obtain rooms r1 where rr: "rr = (rooms, r1)" by (cases rr)
      show ?thesis
      proof (cases "carve_rooms rooms (replicate (nat h) (replicate (nat w) 0))")
        case (Inl e)
        then show ?thesis using Some False r0 Inr rr by (simp add: generateDungeonMap_def)
      next
        case grid1: (Inr grid1)
        note s1 = same_members_rng_update [OF s0, of r1]
        note i1 = same_members_invoke [OF s1, of 30 100]
        let ?g1 = "\<lambda>g. snd (invoke (dungeon_reseed L g seed\<lparr>rng := r1\<rparr>) 30 100)"
        have r1: "rng (?g1 g1) = rng (?g1 g2)" using i1 by (simp add: same_members_def)
        show ?thesis
        proof (cases "dungeon_layout L config rooms w h grid1 (rng (?g1 g2))")
          case (Inl e)
          then show ?thesis using Some False r0 Inr rr grid1 i1 r1
            by (simp add: generateDungeonMap_def Let_def case_prod_unfold outcome_def)
        next
          case lay: (Inr gr)
          obtain grid2 r2 where gr: "gr = (grid2, r2)" by (cases gr)
          note s2 = same_members_rng_update [OF i1 [THEN conjunct2], of r2]
          note i2 = same_members_invoke [OF s2, of 60 100]
          note i3 = same_members_invoke [OF i2 [THEN conjunct2], of 80 100]
          have n2: "noise (snd (invoke (?g1 g1\<lparr>rng := r2\<rparr>) 60 100)) = noise (snd (invoke (?g1 g2\<lparr>rng := r2\<rparr>) 60 100))"
            using i2 by (simp add: same_members_def)
          show ?thesis using Some False r0 Inr rr grid1 i1 r1 lay gr i2 i3 n2
            by (simp add: generateDungeonMap_def Let_def case_prod_unfold outcome_def)
        qed
      qed
    qed
  qed
qed


text \<open>
  Claim C4: for a fixed seed string and configuration, two calls of \<open>generateIslandMap\<close>
  (or of \<open>generateDungeonMap\<close>) with the same width, height and origin on equal host maps
  produce the same ground-id layout. The two calls may start from any two states \<open>g1\<close> and
  \<open>g2\<close> of the generator object (the noise table and the random engine left by earlier
  calls, the record of earlier callback invocations) with the same registered callback:
  the returned flag and the whole resulting map agree, so the ground ids of every tile
  do.
\<close>

theorem generation_deterministic:
  assumes "progress_callback g1 = progress_callback g2"
  shows "outcome (generateIslandMap L g1 mp config w h seed sx sy) =
           outcome (generateIslandMap L g2 mp config w h seed sx sy)
       \<and> map_sum id outcome (generateDungeonMap L g1 mp dconfig w h seed sx sy) =
           map_sum id outcome (generateDungeonMap L g2 mp dconfig w h seed sx sy)"
  using island_deterministic [OF assms, of L mp config w h seed sx sy]
    dungeon_deterministic [OF assms, of L mp dconfig w h seed sx sy]
  by (simp add: outcome_def)

theorem generation_deterministic_witness:
  "outcome (generateIslandMap test_lib (MapGenerator test_lib) (Some Map.empty) default_island 64 64 ''seed1'' 0 0) =
     outcome (generateIslandMap test_lib ((MapGenerator test_lib)\<lparr>rng := 7, calls := [(0, 100, True)]\<rparr>)
                (Some Map.empty) default_island 64 64 ''seed1'' 0 0)
   \<and> map_sum id outcome (generateDungeonMap test_lib (MapGenerator test_lib) (Some Map.empty)
                           default_dungeon 128 128 ''dng1'' 0 0) =
     map_sum id outcome (generateDungeonMap test_lib ((MapGenerator test_lib)\<lparr>rng := 7, calls := [(0, 100, True)]\<rparr>)
                           (Some Map.empty) default_dungeon 128 128 ''dng1'' 0 0)"
proof -
  have "progress_callback (MapGenerator test_lib) =
        progress_callback ((MapGenerator test_lib)\<lparr>rng := 7, calls := [(0, 100, True)]\<rparr>)"
    by simp
  from generation_deterministic [OF this] show ?thesis by blast
qed

subsection \<open>The cave noise of a dungeon\<close>

lemma noise_invoke [simp]: "noise (snd (invoke g c t)) = noise g"
  by (simp add: invoke_def split: option.splits)

lemma rng_invoke [simp]: "rng (snd (invoke g c t)) = rng g"
  by (simp add: invoke_def split: option.splits)

lemma noise_dungeon_reseed [simp]: "noise (dungeon_reseed L g seed) = SimplexNoise L 0"
  by (simp add: dungeon_reseed_def)

lemma rng_dungeon_reseed [simp]: "rng (dungeon_reseed L g seed) = rng (seedRandom L g seed)"
  by (simp add: dungeon_reseed_def)

text \<open>The noise values the cave overlay samples, one for each cell in the order of its
  loops, and the overlay as a function of these values: a cell whose value exceeds
  \<open>cave_threshold\<close> becomes floor.\<close>

definition cave_samples :: "simplex \<Rightarrow> int \<Rightarrow> int \<Rightarrow> real list" where
  "cave_samples sn width height =
     map (\<lambda>(x, y). noise_fn sn (real_of_int x * 0.1) (real_of_int y * 0.1)) (cells width height)"

definition overlay_from :: "DungeonConfig \<Rightarrow> int \<Rightarrow> int \<Rightarrow> real list \<Rightarrow> int list list \<Rightarrow> int list list" where
  "overlay_from config width height vals grid =
     fold (\<lambda>((x, y), n) gr. if n > cave_threshold config then grid_put gr x y 1 else gr)
       (zip (cells width height) vals) grid"

lemma cave_overlay_samples:
  "cave_overlay sn config w h grid = overlay_from config w h (cave_samples sn w h) grid"
proof -
  have "fold (\<lambda>(x, y) gr.
            let n = noise_fn sn (real_of_int x * 0.1) (real_of_int y * 0.1)
            in if n > cave_threshold config then grid_put gr x y 1 else gr) cs grid =
        fold (\<lambda>((x, y), n) gr. if n > cave_threshold config then grid_put gr x y 1 else gr)
          (zip cs (map (\<lambda>(x, y). noise_fn sn (real_of_int x * 0.1) (real_of_int y * 0.1)) cs)) grid"
    for cs
    by (induction cs arbitrary: grid) (simp_all add: case_prod_unfold Let_def)
  then show ?thesis by (simp add: cave_overlay_def overlay_from_def cave_samples_def)
qed

text \<open>The grid after the steps the random engine drives (rooms, hubs, corridors, dead
  ends), as a function of the state of the engine after the prologue; \<open>None\<close> when one
  of these steps fails.\<close>

definition layout_grid :: "'g lib \<Rightarrow> DungeonConfig \<Rightarrow> int \<Rightarrow> int \<Rightarrow> 'g \<Rightarrow> int list list option" where
  "layout_grid L config width height r =
     (case generateRooms L config width height r of
        Inl e \<Rightarrow> None
      | Inr (rooms, r1) \<Rightarrow>
          (case carve_rooms rooms (replicate (nat height) (replicate (nat width) 0)) of
             Inl e \<Rightarrow> None
           | Inr grid1 \<Rightarrow>
               (case dungeon_layout L config rooms width height grid1 r1 of
                  Inl e \<Rightarrow> None
                | Inr (grid2, r2) \<Rightarrow> Some grid2)))"

lemma dungeon_result:
  assumes "generateDungeonMap L g (Some m) config w h seed sx sy = Inr (True, g', mp')"
    and "generate_caves config"
  shows "\<exists>grid. layout_grid L config w h (rng (seedRandom L g seed)) = Some grid
           \<and> mp' = Some (fold (commit_cell L config
                                (overlay_from config w h (cave_samples (SimplexNoise L 0) w h) grid)
                                w h sx sy) (cells w h) m)
           \<and> noise g' = SimplexNoise L 0"
  using assms
  by (auto simp: generateDungeonMap_def layout_grid_def Let_def case_prod_unfold cave_overlay_samples
           split: sum.splits if_splits)

text \<open>
  Claim C10: two calls of \<open>generateDungeonMap\<close> that differ only in the seed string sample
  the same noise values in the cave overlay. After \<open>seedRandom\<close> the prologue replaces the
  noise generator by \<open>SimplexNoise(0)\<close>, whatever the seed and the earlier state, and
  nothing later in the call assigns the member. So for two calls that complete, with caves
  enabled, from any two states of the generator object and on any two maps: each resulting
  map is the commit of the cave overlay over the layout grid of its own call, which the
  seed determines through the random engine, and both overlays are made from the same
  list of sampled values, \<open>cave_samples (SimplexNoise L 0) w h\<close>, in which no seed occurs.
\<close>

theorem cave_noise_ignores_seed:
  assumes "generateDungeonMap L g1 (Some m1) config w h seed1 sx sy = Inr (True, g1', mp1)"
    and "generateDungeonMap L g2 (Some m2) config w h seed2 sx sy = Inr (True, g2', mp2)"
    and "generate_caves config"
  shows "\<exists>grid1 grid2.
           layout_grid L config w h (rng (seedRandom L g1 seed1)) = Some grid1
         \<and> layout_grid L config w h (rng (seedRandom L g2 seed2)) = Some grid2
         \<and> mp1 = Some (fold (commit_cell L config
                              (overlay_from config w h (cave_samples (SimplexNoise L 0) w h) grid1)
                              w h sx sy) (cells w h) m1)
         \<and> mp2 = Some (fold (commit_cell L config
                              (overlay_from config w h (cave_samples (SimplexNoise L 0) w h) grid2)
                              w h sx sy) (cells w h) m2)"
  using dungeon_result [OF assms(1,3)] dungeon_result [OF assms(2,3)] by blast

text \<open>Two seeds that seed the random engine differently, on a grid of two cells with no
  rooms: the same two samples, the same map.\<close>

lemma layout_bare: "layout_grid test_lib bare_dungeon 2 1 r = Some [[0, 0]]"
  by (simp add: layout_grid_def generateRooms_def carve_rooms_def dungeon_layout_def
      generateCorridors_def rooms_loop.simps bare_dungeon_def default_dungeon_def Let_def
      eval_nat_numeral)

lemma bare_run:
  "\<exists>g' mp'. generateDungeonMap test_lib (MapGenerator test_lib) (Some Map.empty) bare_dungeon 2 1 seed 0 0
             = Inr (True, g', mp')"
  by (simp add: generateDungeonMap_def generateRooms_def carve_rooms_def invoke_def
      dungeon_layout_def generateCorridors_def rooms_loop.simps bare_dungeon_def default_dungeon_def
      MapGenerator_def dungeon_reseed_def seedRandom_def Let_def)

lemma rng_seed_1: "rng (seedRandom test_lib g ''1'') = 1"
  by (simp add: seedRandom_def test_lib_def parse_digits_def Let_def)

lemma rng_seed_two: "rng (seedRandom test_lib g ''2'') = 2"
  by (simp add: seedRandom_def test_lib_def parse_digits_def Let_def)

theorem cave_noise_ignores_seed_witness:
  "\<exists>g1' g2' mp.
      generateDungeonMap test_lib (MapGenerator test_lib) (Some Map.empty) bare_dungeon 2 1 ''1'' 0 0
        = Inr (True, g1', mp)
    \<and> generateDungeonMap test_lib (MapGenerator test_lib) (Some Map.empty) bare_dungeon 2 1 ''2'' 0 0
        = Inr (True, g2', mp)
    \<and> mp = Some (fold (commit_cell test_lib bare_dungeon
                        (overlay_from bare_dungeon 2 1 (cave_samples (SimplexNoise test_lib 0) 2 1) [[0, 0]])
                        2 1 0 0) (cells 2 1) Map.empty)
    \<and> rng (seedRandom test_lib (MapGenerator test_lib) ''1'') = 1
    \<and> rng (seedRandom test_lib (MapGenerator test_lib) ''2'') = 2
    \<and> cave_samples (SimplexNoise test_lib 0) 2 1 =
        [noise_fn (SimplexNoise test_lib 0) 0 0, noise_fn (SimplexNoise test_lib 0) (1 / 10) 0]"
proof -
  let ?g = "MapGenerator test_lib"
  obtain g1' mp1 where r1: "generateDungeonMap test_lib ?g (Some Map.empty) bare_dungeon 2 1 ''1'' 0 0
      = Inr (True, g1', mp1)" using bare_run by blast
  obtain g2' mp2 where r2: "generateDungeonMap test_lib ?g (Some Map.empty) bare_dungeon 2 1 ''2'' 0 0
      = Inr (True, g2', mp2)" using bare_run by blast
  have caves: "generate_caves bare_dungeon" by (simp add: bare_dungeon_def default_dungeon_def)
  from cave_noise_ignores_seed [OF r1 r2 caves]
  have m1: "mp1 = Some (fold (commit_cell test_lib bare_dungeon
                        (overlay_from bare_dungeon 2 1 (cave_samples (SimplexNoise test_lib 0) 2 1) [[0, 0]])
                        2 1 0 0) (cells 2 1) Map.empty)"
    and m2: "mp2 = Some (fold (commit_cell test_lib bare_dungeon
                        (overlay_from bare_dungeon 2 1 (cave_samples (SimplexNoise test_lib 0) 2 1) [[0, 0]])
                        2 1 0 0) (cells 2 1) Map.empty)"
    by (auto simp: layout_bare)
  have s: "cave_samples (SimplexNoise test_lib 0) 2 1 =
        [noise_fn (SimplexNoise test_lib 0) 0 0, noise_fn (SimplexNoise test_lib 0) (1 / 10) 0]"
    by (simp add: cave_samples_def cells_def upto.simps)
  from r1 r2 m1 m2 s show ?thesis by (simp add: rng_seed_1 rng_seed_two)
qed

subsection \<open>Room placement\<close>

text \<open>The invariant of the placement loop: every accepted room is inside the margins, and
  a room accepted later passed the padded overlap test against every earlier one.\<close>

definition room_inside :: "int \<Rightarrow> int \<Rightarrow> Room \<Rightarrow> bool" where
  "room_inside width height r \<longleftrightarrow>
     1 \<le> rx r \<and> rx r + rw r \<le> width - 2 \<and> 1 \<le> ry r \<and> ry r + rh r \<le> height - 2"

definition rooms_ok :: "int \<Rightarrow> int \<Rightarrow> Room list \<Rightarrow> bool" where
  "rooms_ok width height rooms \<longleftrightarrow>
     (\<forall>r \<in> set rooms. room_inside width height r) \<and>
     (\<forall>i j. i < j \<and> j < length rooms \<longrightarrow> \<not> intersects (expanded (rooms ! j)) (rooms ! i))"

lemma draw_range:
  "uniform_ok L \<Longrightarrow> draw L a b g = Inr (v, g') \<Longrightarrow> a \<le> v \<and> v \<le> b"
proof -
  assume u: "uniform_ok L" and d: "draw L a b g = Inr (v, g')"
  from d have ab: "a \<le> b" and v: "uniform_int L a b g = (v, g')"
    by (auto simp: draw_def split: if_splits)
  from u ab have "a \<le> fst (uniform_int L a b g) \<and> fst (uniform_int L a b g) \<le> b"
    unfolding uniform_ok_def by blast
  with v show ?thesis by simp
qed

lemma rooms_ok_snoc:
  assumes "rooms_ok w h rooms" "room_inside w h new"
    and "\<not> list_ex (intersects (expanded new)) rooms"
  shows "rooms_ok w h (rooms @ [new])"
proof -
  have "\<not> intersects (expanded ((rooms @ [new]) ! j)) ((rooms @ [new]) ! i)"
    if "i < j" "j < length (rooms @ [new])" for i j
  proof (cases "j < length rooms")
    case True
    with that assms(1) show ?thesis by (simp add: rooms_ok_def nth_append)
  next
    case False
    with that have j: "j = length rooms" and i: "i < length rooms" by simp_all
    then have "rooms ! i \<in> set rooms" by simp
    with assms(3) have "\<not> intersects (expanded new) (rooms ! i)" by (auto simp: list_ex_iff)
    then show ?thesis using i j by (simp add: nth_append)
  qed
  then show ?thesis using assms(1,2) by (auto simp: rooms_ok_def)
qed

lemma rooms_loop_ok:
  "rooms_loop L config w h mx att rooms g = Inr (rooms', g') \<Longrightarrow> rooms_ok w h rooms
   \<Longrightarrow> uniform_ok L \<Longrightarrow> rooms_ok w h rooms'"
proof (induction L config w h mx att rooms g rule: rooms_loop.induct)
  case (1 L config width height max_attempts attempts rooms g)
  note u = \<open>uniform_ok L\<close>
  show ?case
  proof (cases "(room_count config < 0 \<or> int (length rooms) < room_count config) \<and> attempts < max_attempts")
    case False
    with "1.prems" show ?thesis by (simp add: rooms_loop.simps [of L config width height max_attempts attempts])
  next
    case True
    from "1.prems"(1) True obtain rw' g1 rh' g2 x g3 y g4 where
      d1: "draw L (min_room_size config) (max_room_size config) g = Inr (rw', g1)"
      and d2: "draw L (min_room_size config) (max_room_size config) g1 = Inr (rh', g2)"
      and d3: "draw L 1 (width - rw' - 2) g2 = Inr (x, g3)"
      and d4: "draw L 1 (height - rh' - 2) g3 = Inr (y, g4)"
      and rec: "rooms_loop L config width height max_attempts (attempts + 1)
                  (if \<not> list_ex (intersects (expanded (Room x y rw' rh'))) rooms
                   then rooms @ [Room x y rw' rh'] else rooms) g4 = Inr (rooms', g')"
      by (simp add: rooms_loop.simps [of L config width height max_attempts attempts] Let_def
          split: sum.splits prod.splits)
    from draw_range [OF u d3] draw_range [OF u d4]
    have ins: "room_inside width height (Room x y rw' rh')" by (simp add: room_inside_def)
    have ok: "rooms_ok width height
        (if \<not> list_ex (intersects (expanded (Room x y rw' rh'))) rooms
         then rooms @ [Room x y rw' rh'] else rooms)"
      using rooms_ok_snoc [OF "1.prems"(2) ins] "1.prems"(2) by simp
    show ?thesis
      by (rule "1.IH" [OF True d1 refl d2 refl d3 refl d4 refl refl refl rec ok u])
  qed
qed


lemma set_room_cells:
  "set (room_cells r) = {c. rx r \<le> fst c \<and> fst c \<le> rx r + rw r - 1 \<and> ry r \<le> snd c \<and> snd c \<le> ry r + rh r - 1}"
  by (auto simp: room_cells_def)

lemma padded_apart:
  assumes "\<not> intersects (expanded a) b"
  shows "rx a - 1 > rx b + rw b \<or> rx a + rw a + 1 < rx b \<or>
         ry a - 1 > ry b + rh b \<or> ry a + rh a + 1 < ry b"
  using assms by (auto simp: intersects_def expanded_def)

text \<open>
  Claim C5: for every room list \<open>generateRooms\<close> produces, the cells of every room lie
  in \<open>[1, width - 2] \<times> [1, height - 2]\<close>, and the rectangles of two distinct rooms,
  each grown by one tile on every side, have no cell in common. The cells of a room
  \<open>(x, y, w, h)\<close> are the ones the carving loops write, \<open>room_cells\<close>:
  \<open>{x..x + w - 1} \<times> {y..y + h - 1}\<close>; grown by one tile they are
  \<open>{x - 1..x + w} \<times> {y - 1..y + h}\<close>. The list is produced when no draw has an empty
  range (undefined behaviour of \<^verbatim>\<open>uniform_int_distribution\<close>), and the draws obey the
  contract of the distribution, \<open>uniform_ok\<close>. The last conjunct is the test the later
  room passed against the earlier one, written out: on one axis at least, the later room
  starts more than one tile after \<open>x + w\<close> of the earlier one, or ends more than one tile
  before its \<open>x\<close>.
\<close>

theorem generated_rooms_inside_and_apart:
  assumes "uniform_ok L" and "generateRooms L config width height g = Inr (rooms, g')"
  shows "(\<forall>r \<in> set rooms. \<forall>c \<in> set (room_cells r).
            1 \<le> fst c \<and> fst c \<le> width - 2 \<and> 1 \<le> snd c \<and> snd c \<le> height - 2)
       \<and> (\<forall>r \<in> set rooms.
            set (room_cells r) = {rx r..rx r + rw r - 1} \<times> {ry r..ry r + rh r - 1})
       \<and> (\<forall>i j. i < j \<and> j < length rooms \<longrightarrow>
            ({rx (rooms ! i) - 1..rx (rooms ! i) + rw (rooms ! i)} \<times>
             {ry (rooms ! i) - 1..ry (rooms ! i) + rh (rooms ! i)}) \<inter>
            ({rx (rooms ! j) - 1..rx (rooms ! j) + rw (rooms ! j)} \<times>
             {ry (rooms ! j) - 1..ry (rooms ! j) + rh (rooms ! j)}) = {})
       \<and> (\<forall>i j. i < j \<and> j < length rooms \<longrightarrow>
            rx (rooms ! j) - 1 > rx (rooms ! i) + rw (rooms ! i) \<or>
            rx (rooms ! j) + rw (rooms ! j) + 1 < rx (rooms ! i) \<or>
            ry (rooms ! j) - 1 > ry (rooms ! i) + rh (rooms ! i) \<or>
            ry (rooms ! j) + rh (rooms ! j) + 1 < ry (rooms ! i))"
proof -
  have "rooms_ok width height []" by (simp add: rooms_ok_def)
  with assms have ok: "rooms_ok width height rooms"
    unfolding generateRooms_def by (rule rooms_loop_ok [rotated -1])
  have inside: "1 \<le> fst c \<and> fst c \<le> width - 2 \<and> 1 \<le> snd c \<and> snd c \<le> height - 2"
    if "r \<in> set rooms" "c \<in> set (room_cells r)" for r c
  proof -
    from ok that(1) have "room_inside width height r" by (simp add: rooms_ok_def)
    with that(2) show ?thesis by (auto simp: room_inside_def set_room_cells)
  qed
  have cells: "set (room_cells r) = {rx r..rx r + rw r - 1} \<times> {ry r..ry r + rh r - 1}" for r
    by (auto simp: set_room_cells)
  have gap: "rx (rooms ! j) - 1 > rx (rooms ! i) + rw (rooms ! i) \<or>
      rx (rooms ! j) + rw (rooms ! j) + 1 < rx (rooms ! i) \<or>
      ry (rooms ! j) - 1 > ry (rooms ! i) + rh (rooms ! i) \<or>
      ry (rooms ! j) + rh (rooms ! j) + 1 < ry (rooms ! i)"
    if "i < j" "j < length rooms" for i j
  proof -
    from ok that have "\<not> intersects (expanded (rooms ! j)) (rooms ! i)" by (simp add: rooms_ok_def)
    then show ?thesis by (rule padded_apart)
  qed
  have apart: "({rx (rooms ! i) - 1..rx (rooms ! i) + rw (rooms ! i)} \<times>
             {ry (rooms ! i) - 1..ry (rooms ! i) + rh (rooms ! i)}) \<inter>
            ({rx (rooms ! j) - 1..rx (rooms ! j) + rw (rooms ! j)} \<times>
             {ry (rooms ! j) - 1..ry (rooms ! j) + rh (rooms ! j)}) = {}"
    if "i < j" "j < length rooms" for i j
    using gap [OF that] by auto
  from inside cells gap apart show ?thesis by blast
qed

text \<open>A run with the counter engine: the second of three candidates overlaps the first
  and is rejected.\<close>

definition two_rooms :: DungeonConfig where
  "two_rooms = default_dungeon\<lparr>room_count := 2\<rparr>"

lemma uniform_ok_test_lib: "uniform_ok test_lib"
proof -
  have "a + int g mod (b - a + 1) \<le> b" if "a \<le> b" for a b :: int and g :: nat
  proof -
    have "int g mod (b - a + 1) < b - a + 1" using that by (intro pos_mod_bound) simp
    then show ?thesis by simp
  qed
  moreover have "a \<le> a + int g mod (b - a + 1)" if "a \<le> b" for a b :: int and g :: nat
    using that by simp
  ultimately show ?thesis by (simp add: uniform_ok_def test_lib_def)
qed

lemma generateRooms_two_rooms:
  "generateRooms test_lib two_rooms 40 40 0 = Inr ([Room 3 4 5 6, Room 11 12 5 6], 12)"
  by (simp add: generateRooms_def rooms_loop.simps draw_def test_lib_def two_rooms_def
      default_dungeon_def intersects_def expanded_def Let_def)

theorem generated_rooms_inside_and_apart_witness:
  "generateRooms test_lib two_rooms 40 40 0 = Inr ([Room 3 4 5 6, Room 11 12 5 6], 12)
   \<and> ({2..8} \<times> {3..10}) \<inter> ({10..16} \<times> {11..18}) = ({} :: (int \<times> int) set)
   \<and> (7, 9) \<in> set (room_cells (Room 3 4 5 6))"
proof -
  note T = generated_rooms_inside_and_apart [OF uniform_ok_test_lib generateRooms_two_rooms]
  from T have "\<forall>i j. i < j \<and> j < length [Room 3 4 5 6, Room 11 12 5 6] \<longrightarrow>
            ({rx ([Room 3 4 5 6, Room 11 12 5 6] ! i) - 1..rx ([Room 3 4 5 6, Room 11 12 5 6] ! i) + rw ([Room 3 4 5 6, Room 11 12 5 6] ! i)} \<times>
             {ry ([Room 3 4 5 6, Room 11 12 5 6] ! i) - 1..ry ([Room 3 4 5 6, Room 11 12 5 6] ! i) + rh ([Room 3 4 5 6, Room 11 12 5 6] ! i)}) \<inter>
            ({rx ([Room 3 4 5 6, Room 11 12 5 6] ! j) - 1..rx ([Room 3 4 5 6, Room 11 12 5 6] ! j) + rw ([Room 3 4 5 6, Room 11 12 5 6] ! j)} \<times>
             {ry ([Room 3 4 5 6, Room 11 12 5 6] ! j) - 1..ry ([Room 3 4 5 6, Room 11 12 5 6] ! j) + rh ([Room 3 4 5 6, Room 11 12 5 6] ! j)}) = {}"
    by blast
  from this [rule_format, of 0 1]
  have "({2..8} \<times> {3..10}) \<inter> ({10..16} \<times> {11..18}) = ({} :: (int \<times> int) set)" by simp
  then show ?thesis
    by (simp add: generateRooms_two_rooms set_room_cells)
qed

subsection \<open>The island mask on a field of ones\<close>

text \<open>The height field with every cell 1.0, and what the mask makes of a cell of it as
  a function of the distance \<open>getDistance\<close> returned.\<close>

definition ones :: "int \<Rightarrow> int \<Rightarrow> dbl list list" where
  "ones width height = replicate (nat height) (replicate (nat width) (Fin 1.0))"

definition mask_of_distance :: "IslandConfig \<Rightarrow> int \<Rightarrow> int \<Rightarrow> real \<Rightarrow> dbl" where
  "mask_of_distance config width height distance =
     std_max (Fin 0.0) (std_min (Fin 1.0)
       (dsub (Fin 1.0)
          (applyFalloff (ddiv distance (real_of_int (min width height) / 2.0 * island_size config))
             (island_falloff config))))"

lemma nth_upto0: "0 \<le> x \<Longrightarrow> x < w \<Longrightarrow> [0..w - 1] ! nat x = x"
  by simp

lemma trunc_half: "0 \<le> w \<Longrightarrow> trunc (real_of_int w / 2) = w div 2"
proof -
  assume "0 \<le> w"
  have "\<lfloor>real_of_int w / real_of_int 2\<rfloor> = w div 2" by (rule floor_divide_of_int_eq)
  then show ?thesis using \<open>0 \<le> w\<close> by (simp add: trunc_def)
qed

lemma masked_ones_cell:
  assumes "0 \<le> x" "x < w" "0 \<le> y" "y < h"
  shows "grid_at (applyIslandMask (ones w h) config w h) x y =
         mask_of_distance config w h (getDistance x y (w div 2) (h div 2))"
proof -
  have "nat y < length [0..h - 1]" "nat x < length [0..w - 1]" using assms by simp_all
  moreover have "ones w h ! nat y ! nat x = Fin 1" using assms by (simp add: ones_def)
  ultimately show ?thesis using assms
    by (simp add: grid_at_def applyIslandMask_def mask_cell_def mask_of_distance_def nth_upto0
        trunc_half Let_def)
qed

lemma getDistance_nonneg: "0 \<le> getDistance x y cx cy"
  by (simp add: getDistance_def Let_def)

lemma mask_of_distance_antimono:
  assumes f: "1 \<le> island_falloff config" and d: "0 \<le> d1" "d1 \<le> d2"
  shows "\<not> dless (mask_of_distance config w h d1) (mask_of_distance config w h d2)"
proof -
  define D where "D = real_of_int (min w h) / 2.0 * island_size config"
  define fo where "fo = island_falloff config"
  have fo: "1 \<le> fo" "fo \<noteq> 0" "0 < fo" using f by (simp_all add: fo_def)
  consider (pos) "0 < D" | (neg) "D < 0" | (zero) "D = 0" by linarith
  then show ?thesis
  proof cases
    case pos
    define F where "F = (\<lambda>n::real. if 1 < n then 1 else if n = 0 then 0 else n powr fo)"
    have app: "applyFalloff (ddiv d D) fo = Fin (F (d / D))" if "0 \<le> d" for d
    proof -
      have "0 \<le> d / D" using that pos by simp
      then have "\<not> d / D < 0" by linarith
      then show ?thesis using pos by (simp add: applyFalloff_def ddiv_def F_def fo)
    qed
    have n: "0 \<le> d1 / D" "d1 / D \<le> d2 / D" using d pos by (simp_all add: divide_right_mono)
    have le1: "n powr fo \<le> 1" if "0 \<le> n" "n \<le> 1" for n
      using that fo by (intro powr_le1) auto
    have mono: "a powr fo \<le> b powr fo" if "0 \<le> a" "a \<le> b" for a b
      using that fo by (intro powr_mono2) auto
    have Fle: "F (d1 / D) \<le> F (d2 / D)"
      using n le1 [of "d1 / D"] mono [of "d1 / D" "d2 / D"]
      by (auto simp: F_def not_less)
    have "mask_of_distance config w h d = Fin (max 0 (min 1 (1 - F (d / D))))" if "0 \<le> d" for d
      unfolding mask_of_distance_def D_def [symmetric] fo_def [symmetric]
      by (simp add: app [OF that] std_max_def std_min_def dsub_def)
    then show ?thesis using d Fle by simp
  next
    case neg
    have "applyFalloff (ddiv d D) fo = Fin 0" if "0 \<le> d" for d
    proof (cases "d = 0")
      case True
      then show ?thesis using neg fo by (simp add: applyFalloff_def ddiv_def)
    next
      case False
      with that neg have "d / D < 0" by (simp add: divide_pos_neg)
      then show ?thesis using neg by (simp add: applyFalloff_def ddiv_def)
    qed
    then have "mask_of_distance config w h d = Fin 1" if "0 \<le> d" for d
      unfolding mask_of_distance_def D_def [symmetric] fo_def [symmetric]
      using that by (simp add: std_max_def std_min_def dsub_def)
    then show ?thesis using d by simp
  next
    case zero
    have m0: "mask_of_distance config w h 0 = Fin 1"
      unfolding mask_of_distance_def D_def [symmetric] fo_def [symmetric]
      using zero fo
      by (simp add: std_max_def std_min_def dsub_def applyFalloff_def ddiv_def)
    have mp: "mask_of_distance config w h d = Fin 0" if "0 < d" for d
      unfolding mask_of_distance_def D_def [symmetric] fo_def [symmetric]
      using zero fo that
      by (simp add: std_max_def std_min_def dsub_def applyFalloff_def ddiv_def)
    show ?thesis
    proof (cases "d2 = 0")
      case True
      with d have "d1 = 0" by simp
      with True m0 show ?thesis by simp
    next
      case False
      with d have "0 < d2" by simp
      from mp [OF this] show ?thesis
        using m0 mp [of d1] d by (cases "d1 = 0") simp_all
    qed
  qed
qed


lemma clamp_finite:
  "\<exists>v. std_max (Fin 0) (std_min (Fin 1) X) = Fin v \<and> 0 \<le> v \<and> v \<le> 1"
  by (cases X) (auto simp: std_max_def std_min_def)

lemma mask_of_distance_finite:
  "\<exists>v. mask_of_distance config w h d = Fin v \<and> 0 \<le> v \<and> v \<le> 1"
  unfolding mask_of_distance_def using clamp_finite by simp

text \<open>
  Claim C9, amended: for \<open>island_falloff \<ge> 1\<close>, on a field of ones, the masked value of a
  cell is finite and does not increase as the cell's Euclidean distance from the cell
  \<open>(width div 2, height div 2)\<close> increases, which is the point \<open>applyIslandMask\<close>
  measures from: it passes \<^verbatim>\<open>static_cast<int>(centerX)\<close> and
  \<^verbatim>\<open>static_cast<int>(centerY)\<close> to \<open>getDistance\<close>.
\<close>

theorem island_mask_monotone:
  assumes "1 \<le> island_falloff config"
    and "0 \<le> x1" "x1 < width" "0 \<le> y1" "y1 < height"
    and "0 \<le> x2" "x2 < width" "0 \<le> y2" "y2 < height"
    and "getDistance x1 y1 (width div 2) (height div 2) \<le> getDistance x2 y2 (width div 2) (height div 2)"
  shows "\<exists>v1 v2. grid_at (applyIslandMask (ones width height) config width height) x1 y1 = Fin v1
               \<and> grid_at (applyIslandMask (ones width height) config width height) x2 y2 = Fin v2
               \<and> v2 \<le> v1"
proof -
  let ?d1 = "getDistance x1 y1 (width div 2) (height div 2)"
  let ?d2 = "getDistance x2 y2 (width div 2) (height div 2)"
  obtain v1 where v1: "mask_of_distance config width height ?d1 = Fin v1"
    using mask_of_distance_finite by blast
  obtain v2 where v2: "mask_of_distance config width height ?d2 = Fin v2"
    using mask_of_distance_finite by blast
  from mask_of_distance_antimono [OF assms(1) getDistance_nonneg assms(10), of width height] v1 v2
  have "v2 \<le> v1" by simp
  then show ?thesis
    using v1 v2 masked_ones_cell [OF assms(2-5), of config] masked_ones_cell [OF assms(6-9), of config]
    by simp
qed

text \<open>The distance from the centre \<open>(centerX, centerY)\<close> of the domain, as
  \<open>applyIslandMask\<close> computes it before the casts to \<^verbatim>\<open>int\<close>.\<close>

definition center_distance :: "int \<Rightarrow> int \<Rightarrow> int \<Rightarrow> int \<Rightarrow> real" where
  "center_distance width height x y =
     (let centerX = real_of_int width / 2.0;
          centerY = real_of_int height / 2.0;
          dx = real_of_int x - centerX;
          dy = real_of_int y - centerY
      in sqrt (dx * dx + dy * dy))"

definition full_island :: IslandConfig where
  "full_island = default_island\<lparr>island_size := 1\<rparr>"

lemma sqrt2_bound: "sqrt 2 \<le> 3 / 2"
  by (rule real_le_lsqrt) (simp_all add: power2_eq_square)

lemma mask_3_3_corner: "mask_of_distance full_island 3 3 (sqrt 2) = Fin (1 / 9)"
proof -
  have a: "\<not> 3 < sqrt 2 * 2" using sqrt2_bound by simp
  have "(sqrt 2 * 2 / 3) powr 2 = (sqrt 2 * 2 / 3)\<^sup>2" by (rule powr_numeral) simp
  also have "\<dots> = 8 / 9" by (simp add: power2_eq_square)
  finally have b: "(sqrt 2 * 2 / 3) powr 2 = 8 / 9" .
  show ?thesis
    by (simp add: mask_of_distance_def full_island_def default_island_def ddiv_def applyFalloff_def
        a b dsub_def std_min_def std_max_def)
qed

lemma mask_3_3_edge: "mask_of_distance full_island 3 3 1 = Fin (5 / 9)"
proof -
  have "(2 / 3 :: real) powr 2 = (2 / 3)\<^sup>2" by (rule powr_numeral) simp
  also have "\<dots> = 4 / 9" by (simp add: power2_eq_square)
  finally have b: "(2 / 3 :: real) powr 2 = 4 / 9" .
  show ?thesis
    by (simp add: mask_of_distance_def full_island_def default_island_def ddiv_def applyFalloff_def
        b dsub_def std_min_def std_max_def)
qed

lemma mask_3_3_centre: "mask_of_distance full_island 3 3 0 = Fin 1"
  by (simp add: mask_of_distance_def full_island_def default_island_def ddiv_def applyFalloff_def
      dsub_def std_min_def std_max_def)

text \<open>
  Claim C9 says that, for \<open>island_falloff \<ge> 1\<close>, the mask turns a field of ones into a
  field whose values do not increase with the distance from the centre of the domain. As
  stated it fails where a dimension is odd, the point measured from being half a tile off
  the centre: for width and height 3, \<open>island_size = 1\<close> and \<open>island_falloff = 2\<close>, the
  cell \<open>(2, 2)\<close> is nearer the centre \<open>(1.5, 1.5)\<close> than the cell \<open>(0, 1)\<close> and has the
  smaller value, 1/9 against 5/9.
\<close>

theorem island_mask_not_monotone_from_domain_centre:
  "center_distance 3 3 2 2 < center_distance 3 3 0 1
   \<and> dless (grid_at (applyIslandMask (ones 3 3) full_island 3 3) 2 2)
            (grid_at (applyIslandMask (ones 3 3) full_island 3 3) 0 1)"
proof -
  have "center_distance 3 3 2 2 = sqrt (1 / 2)" "center_distance 3 3 0 1 = sqrt (5 / 2)"
    by (simp_all add: center_distance_def Let_def)
  then have "center_distance 3 3 2 2 < center_distance 3 3 0 1" by simp
  moreover have "getDistance 2 2 1 1 = sqrt 2" "getDistance 0 1 1 1 = 1"
    by (simp_all add: getDistance_def Let_def)
  ultimately show ?thesis
    by (simp add: masked_ones_cell mask_3_3_corner mask_3_3_edge)
qed

theorem island_mask_monotone_witness:
  "getDistance 1 1 (3 div 2) (3 div 2) \<le> getDistance 2 2 (3 div 2) (3 div 2)
   \<and> grid_at (applyIslandMask (ones 3 3) full_island 3 3) 1 1 = Fin 1
   \<and> grid_at (applyIslandMask (ones 3 3) full_island 3 3) 2 2 = Fin (1 / 9)"
proof -
  have d: "getDistance 1 1 1 1 = 0" "getDistance 2 2 1 1 = sqrt 2"
    by (simp_all add: getDistance_def Let_def)
  have f: "1 \<le> island_falloff full_island" by (simp add: full_island_def default_island_def)
  have le: "getDistance 1 1 (3 div 2) (3 div 2) \<le> getDistance 2 2 (3 div 2) (3 div 2)"
    by (simp add: d)
  from island_mask_monotone [OF f _ _ _ _ _ _ _ _ le]
  obtain v1 v2 where "grid_at (applyIslandMask (ones 3 3) full_island 3 3) 1 1 = Fin v1"
    "grid_at (applyIslandMask (ones 3 3) full_island 3 3) 2 2 = Fin v2" "v2 \<le> v1"
    by auto
  then show ?thesis using le
    by (simp add: masked_ones_cell d mask_3_3_corner mask_3_3_centre)
qed

subsection \<open>A second run of removeSmallPatches\<close>

text \<open>The cells of the rectangle whose tile, on floor \<open>z\<close>, has a ground of id \<open>tile_id\<close>;
  the 4-neighbourhood on such a set, as the scans of \<open>floodFillCount\<close> and of the marking
  loop follow it; and the connected component of a cell: what is reachable from it along
  neighbours inside the set.\<close>

definition cell_pos :: "int \<Rightarrow> int \<Rightarrow> int \<Rightarrow> int \<times> int \<Rightarrow> position" where
  "cell_pos offsetX offsetY z c = (fst c + offsetX, snd c + offsetY, z)"

definition patch_cells :: "host_map \<Rightarrow> int \<Rightarrow> int \<Rightarrow> int \<Rightarrow> 16 word \<Rightarrow> int \<Rightarrow> int \<Rightarrow> (int \<times> int) set" where
  "patch_cells m z width height tile_id offsetX offsetY =
     {c \<in> rect width height. ground_id_at m (cell_pos offsetX offsetY z c) = Some tile_id}"

definition adjacent :: "(int \<times> int) set \<Rightarrow> ((int \<times> int) \<times> (int \<times> int)) set" where
  "adjacent T = {(a, b). b \<in> set (neighbours4 a) \<and> b \<in> T}"

definition component :: "(int \<times> int) set \<Rightarrow> int \<times> int \<Rightarrow> (int \<times> int) set" where
  "component T c = (adjacent T)\<^sup>* `` {c}"

lemma cell_pos_inj [simp]: "cell_pos ox oy z a = cell_pos ox oy z b \<longleftrightarrow> a = b"
  by (auto simp: cell_pos_def prod_eq_iff)

lemma in_rect: "(x, y) \<in> rect w h \<longleftrightarrow> 0 \<le> x \<and> x < w \<and> 0 \<le> y \<and> y < h"
  by (auto simp: rect_def)

lemma finite_rect [simp]: "finite (rect w h)"
  by (simp add: rect_def)

lemma patch_cells_subset: "patch_cells m z w h t ox oy \<subseteq> rect w h"
  by (auto simp: patch_cells_def)

lemma neighbours4_sym: "b \<in> set (neighbours4 a) \<Longrightarrow> a \<in> set (neighbours4 b)"
  by (cases a, cases b) (auto simp: neighbours4_def)

lemma distinct_neighbours4 [simp]: "distinct (neighbours4 c)"
  by (cases c) (simp add: neighbours4_def)

lemma not_self_neighbour [simp]: "c \<notin> set (neighbours4 c)"
  by (cases c) (simp add: neighbours4_def)

lemma component_refl [simp]: "c \<in> component T c"
  by (simp add: component_def)

lemma component_step:
  "a \<in> component T c \<Longrightarrow> b \<in> set (neighbours4 a) \<Longrightarrow> b \<in> T \<Longrightarrow> b \<in> component T c"
  unfolding component_def adjacent_def
  by (auto intro: rtrancl_into_rtrancl)

lemma component_subset: "c \<in> T \<Longrightarrow> component T c \<subseteq> T"
proof
  fix d assume c: "c \<in> T" and "d \<in> component T c"
  then have "(c, d) \<in> (adjacent T)\<^sup>*" by (simp add: component_def)
  then show "d \<in> T" using c by (induction rule: rtrancl_induct) (auto simp: adjacent_def)
qed

lemma component_back:
  assumes "c \<in> T" "d \<in> component T c"
  shows "c \<in> component T d"
proof -
  from assms(2) have "(c, d) \<in> (adjacent T)\<^sup>*" by (simp add: component_def)
  then have "(d, c) \<in> (adjacent T)\<^sup>*"
  proof (induction rule: rtrancl_induct)
    case base
    then show ?case by simp
  next
    case (step a b)
    have aT: "a \<in> T" using assms(1) step(1) component_subset [OF assms(1)]
      by (auto simp: component_def)
    from step(2) have "a \<in> set (neighbours4 b)" by (auto simp: adjacent_def dest: neighbours4_sym)
    with aT have "(b, a) \<in> adjacent T" by (simp add: adjacent_def)
    from converse_rtrancl_into_rtrancl [OF this step.IH] show ?case .
  qed
  then show ?thesis by (simp add: component_def)
qed

lemma component_trans:
  "b \<in> component T a \<Longrightarrow> c \<in> component T b \<Longrightarrow> c \<in> component T a"
  by (auto simp: component_def)

lemma component_eq:
  assumes "c \<in> T" "d \<in> component T c"
  shows "component T d = component T c"
  using assms component_back [OF assms] component_trans by blast

text \<open>A set that holds the start and every patch neighbour of its members holds the
  whole component.\<close>

lemma component_closed:
  assumes "c \<in> V" and "\<And>p n. p \<in> V \<Longrightarrow> n \<in> set (neighbours4 p) \<Longrightarrow> n \<in> T \<Longrightarrow> n \<in> V"
  shows "component T c \<subseteq> V"
proof
  fix d assume "d \<in> component T c"
  then have "(c, d) \<in> (adjacent T)\<^sup>*" by (simp add: component_def)
  then show "d \<in> V"
    by (induction rule: rtrancl_induct) (auto simp: adjacent_def assms)
qed

lemma visit_eq:
  "visit m z w h t ox oy n (q, v) =
     (if n \<in> patch_cells m z w h t ox oy \<and> n \<notin> v then (q @ [n], insert n v) else (q, v))"
  by (cases n) (auto simp: visit_def patch_cells_def in_rect cell_pos_def split: option.splits)

lemma fold_visit_eq:
  "distinct ns \<Longrightarrow>
   fold (visit m z w h t ox oy) ns (q, v) =
     (q @ filter (\<lambda>n. n \<in> patch_cells m z w h t ox oy \<and> n \<notin> v) ns,
      v \<union> set (filter (\<lambda>n. n \<in> patch_cells m z w h t ox oy \<and> n \<notin> v) ns))"
proof (induction ns arbitrary: q v)
  case Nil
  then show ?case by simp
next
  case (Cons n ns)
  then have d: "distinct ns" and nn: "n \<notin> set ns" by simp_all
  have f: "filter (\<lambda>k. k \<in> patch_cells m z w h t ox oy \<and> k \<notin> insert n v) ns =
           filter (\<lambda>k. k \<in> patch_cells m z w h t ox oy \<and> k \<notin> v) ns"
    using nn by (intro filter_cong) auto
  let ?P = "patch_cells m z w h t ox oy"
  show ?case
  proof (cases "n \<in> ?P \<and> n \<notin> v")
    case True
    have "fold (visit m z w h t ox oy) (n # ns) (q, v) =
          fold (visit m z w h t ox oy) ns (q @ [n], insert n v)"
      using True by (simp add: visit_eq)
    also have "\<dots> = ((q @ [n]) @ filter (\<lambda>k. k \<in> ?P \<and> k \<notin> insert n v) ns,
                       insert n v \<union> set (filter (\<lambda>k. k \<in> ?P \<and> k \<notin> insert n v) ns))"
      by (rule Cons.IH [OF d])
    also have "\<dots> = (q @ filter (\<lambda>k. k \<in> ?P \<and> k \<notin> v) (n # ns),
                       v \<union> set (filter (\<lambda>k. k \<in> ?P \<and> k \<notin> v) (n # ns)))"
      unfolding f using True by simp
    finally show ?thesis .
  next
    case False
    then have "visit m z w h t ox oy n (q, v) = (q, v)" by (auto simp: visit_eq)
    moreover from False have "filter (\<lambda>k. k \<in> ?P \<and> k \<notin> v) (n # ns) = filter (\<lambda>k. k \<in> ?P \<and> k \<notin> v) ns"
      by auto
    ultimately show ?thesis using Cons.IH [OF d, of q v] by simp
  qed
qed

lemma scan4_eq:
  "scan4 m z w h t ox oy c (q, v) =
     (q @ filter (\<lambda>n. n \<in> patch_cells m z w h t ox oy \<and> n \<notin> v) (neighbours4 c),
      v \<union> set (filter (\<lambda>n. n \<in> patch_cells m z w h t ox oy \<and> n \<notin> v) (neighbours4 c)))"
  by (simp add: scan4_def fold_visit_eq)


text \<open>The map after the replacement step of \<open>floodFillCount\<close> has run at every cell of a
  set of cells that have a ground.\<close>

definition repl_set :: "'g lib \<Rightarrow> host_map \<Rightarrow> int \<Rightarrow> int \<Rightarrow> int \<Rightarrow> 16 word \<Rightarrow> (int \<times> int) set \<Rightarrow> host_map" where
  "repl_set L m ox oy z r S =
     (if r = 0 then m
      else (\<lambda>p. if p \<in> cell_pos ox oy z ` S
                then map_option (\<lambda>tl. tl\<lparr>ground := Item_Create L r\<rparr>) (m p)
                else m p))"

lemma repl_set_empty [simp]: "repl_set L m ox oy z r {} = m"
  by (simp add: repl_set_def)

lemma ground_id_at_repl_set_outside:
  "c \<notin> S \<Longrightarrow> ground_id_at (repl_set L m ox oy z r S) (cell_pos ox oy z c) = ground_id_at m (cell_pos ox oy z c)"
  by (auto simp: repl_set_def ground_id_at_def)

lemma replace_ground_repl_set:
  assumes "c \<notin> S" "ground_id_at m0 (cell_pos ox oy z c) = Some t"
  shows "replace_ground L (repl_set L m0 ox oy z r S) (cell_pos ox oy z c) r = repl_set L m0 ox oy z r (insert c S)"
proof (cases "r = 0")
  case True
  then show ?thesis by (simp add: replace_ground_def repl_set_def)
next
  case False
  from assms(2) obtain tl where tl: "m0 (cell_pos ox oy z c) = Some tl" "ground tl = Some t"
    by (auto simp: ground_id_at_def split: option.splits)
  have out: "cell_pos ox oy z c \<notin> cell_pos ox oy z ` S" using assms(1) by auto
  show ?thesis
    using False tl out
    by (auto simp: replace_ground_def repl_set_def fun_eq_iff)
qed

lemma patch_filter_repl_set:
  assumes "S \<subseteq> v"
  shows "filter (\<lambda>n. n \<in> patch_cells (repl_set L m0 ox oy z r S) z w h t ox oy \<and> n \<notin> v) ns =
         filter (\<lambda>n. n \<in> patch_cells m0 z w h t ox oy \<and> n \<notin> v) ns"
proof (rule filter_cong [OF refl])
  fix n
  show "(n \<in> patch_cells (repl_set L m0 ox oy z r S) z w h t ox oy \<and> n \<notin> v) =
        (n \<in> patch_cells m0 z w h t ox oy \<and> n \<notin> v)"
  proof (cases "n \<in> v")
    case True
    then show ?thesis by simp
  next
    case False
    with assms have "n \<notin> S" by auto
    then show ?thesis by (simp add: patch_cells_def ground_id_at_repl_set_outside)
  qed
qed

lemma ff_loop_correct:
  "c0 \<in> patch_cells m0 z w h t ox oy \<Longrightarrow> set q \<subseteq> v
   \<Longrightarrow> v \<subseteq> component (patch_cells m0 z w h t ox oy) c0 \<Longrightarrow> distinct q \<Longrightarrow> c0 \<in> v
   \<Longrightarrow> (\<forall>p \<in> v - set q. \<forall>n \<in> set (neighbours4 p). n \<in> patch_cells m0 z w h t ox oy \<longrightarrow> n \<in> v)
   \<Longrightarrow> m = repl_set L m0 ox oy z r (v - set q)
   \<Longrightarrow> ff_loop L z w h t r ox oy m q v cnt =
         (cnt + int (card (component (patch_cells m0 z w h t ox oy) c0 - (v - set q))),
          repl_set L m0 ox oy z r (component (patch_cells m0 z w h t ox oy) c0))"
proof (induction L z w h t r ox oy m q v cnt rule: ff_loop.induct)
  case (1 L z w h t r ox oy m v cnt)
  let ?T = "patch_cells m0 z w h t ox oy"
  have "component ?T c0 \<subseteq> v"
    using "1.prems"(5,6) by (intro component_closed) auto
  with "1.prems"(3) have "v = component ?T c0" by auto
  then show ?case using "1.prems"(7) by simp
next
  case (2 L z w h t r ox oy m cx cy queue v cnt)
  let ?T = "patch_cells m0 z w h t ox oy"
  let ?R = "component ?T c0"
  let ?c = "(cx, cy)"
  let ?popped = "v - set (?c # queue)"
  let ?new = "filter (\<lambda>n. n \<in> ?T \<and> n \<notin> v) (neighbours4 ?c)"
  have sub: "?R \<subseteq> ?T" using "2.prems"(1) by (rule component_subset)
  have fin: "finite ?R" using sub patch_cells_subset [of m0 z w h t ox oy] finite_rect [of w h]
    by (meson finite_subset)
  have cv: "?c \<in> v" and cq: "?c \<notin> set queue" and dq: "distinct queue"
    using "2.prems"(2,4) by auto
  have cR: "?c \<in> ?R" using cv "2.prems"(3) by auto
  then have cT: "?c \<in> ?T" using sub by auto
  then have cg: "ground_id_at m0 (cell_pos ox oy z ?c) = Some t" by (simp add: patch_cells_def)
  have cnp: "?c \<notin> ?popped" by simp
  define m' where "m' = replace_ground L m (cx + ox, cy + oy, z) r"
  have m': "m' = repl_set L m0 ox oy z r (insert ?c ?popped)"
    using replace_ground_repl_set [OF cnp cg, of L r] "2.prems"(7)
    by (simp add: m'_def cell_pos_def)
  have popsub: "insert ?c ?popped \<subseteq> v" using cv by auto
  have scan: "scan4 m' z w h t ox oy ?c (queue, v) = (queue @ ?new, v \<union> set ?new)"
    unfolding scan4_eq m' patch_filter_repl_set [OF popsub] by simp
  have newR: "set ?new \<subseteq> ?R"
    using cR by (auto intro: component_step)
  have popped': "(v \<union> set ?new) - set (queue @ ?new) = insert ?c ?popped"
    using cv cq by auto
  have closed: "\<forall>p \<in> (v \<union> set ?new) - set (queue @ ?new). \<forall>n \<in> set (neighbours4 p). n \<in> ?T \<longrightarrow> n \<in> v \<union> set ?new"
  proof (intro ballI impI)
    fix p n assume p: "p \<in> (v \<union> set ?new) - set (queue @ ?new)"
      and n: "n \<in> set (neighbours4 p)" "n \<in> ?T"
    from p popped' have "p = ?c \<or> p \<in> ?popped" by blast
    then show "n \<in> v \<union> set ?new"
    proof
      assume "p = ?c"
      with n show ?thesis by auto
    next
      assume "p \<in> ?popped"
      with "2.prems"(6) n have "n \<in> v" by blast
      then show ?thesis by simp
    qed
  qed
  have IH: "ff_loop L z w h t r ox oy m' (queue @ ?new) (v \<union> set ?new) (cnt + 1) =
        (cnt + 1 + int (card (?R - ((v \<union> set ?new) - set (queue @ ?new)))), repl_set L m0 ox oy z r ?R)"
  proof -
    have a: "set (queue @ ?new) \<subseteq> v \<union> set ?new" using "2.prems"(2) by auto
    have b: "v \<union> set ?new \<subseteq> ?R" using "2.prems"(3) newR by blast
    have "set queue \<subseteq> v" using "2.prems"(2) by auto
    then have "set queue \<inter> set ?new = {}" by auto
    then have c: "distinct (queue @ ?new)" using dq by simp
    have d: "c0 \<in> v \<union> set ?new" using "2.prems"(5) by simp
    have e: "m' = repl_set L m0 ox oy z r ((v \<union> set ?new) - set (queue @ ?new))"
      unfolding popped' by (rule m')
    show ?thesis
      using "2.IH" [OF m'_def refl, unfolded scan fst_conv snd_conv, OF "2.prems"(1) a b c d closed e] .
  qed
  have "?R - ?popped = insert ?c (?R - insert ?c ?popped)" using cR by auto
  moreover have "?c \<notin> ?R - insert ?c ?popped" by simp
  moreover have "finite (?R - insert ?c ?popped)" using fin by simp
  ultimately have card: "card (?R - ?popped) = Suc (card (?R - insert ?c ?popped))"
    by (metis card_insert_disjoint)
  have "ff_loop L z w h t r ox oy m (?c # queue) v cnt =
        ff_loop L z w h t r ox oy m' (queue @ ?new) (v \<union> set ?new) (cnt + 1)"
    by (simp only: ff_loop.simps Let_def m'_def [symmetric] scan fst_conv snd_conv)
  also have "\<dots> = (cnt + 1 + int (card (?R - insert ?c ?popped)), repl_set L m0 ox oy z r ?R)"
    using IH unfolding popped' .
  also have "cnt + 1 + int (card (?R - insert ?c ?popped)) = cnt + int (card (?R - ?popped))"
    unfolding card by simp
  finally show ?case .
qed


lemma floodFillCount_correct:
  assumes "(x, y) \<in> patch_cells m z w h t ox oy"
  shows "floodFillCount L m x y z w h t r ox oy =
         (int (card (component (patch_cells m z w h t ox oy) (x, y))),
          repl_set L m ox oy z r (component (patch_cells m z w h t ox oy) (x, y)))"
proof -
  let ?T = "patch_cells m z w h t ox oy"
  from assms have g: "ground_id_at m (x + ox, y + oy, z) = Some t"
    by (simp add: patch_cells_def cell_pos_def)
  have "ff_loop L z w h t r ox oy m [(x, y)] {(x, y)} 0 =
        (0 + int (card (component ?T (x, y) - ({(x, y)} - set [(x, y)]))),
         repl_set L m ox oy z r (component ?T (x, y)))"
    by (rule ff_loop_correct [OF assms]) simp_all
  then show ?thesis using g by (simp add: floodFillCount_def)
qed

lemma patch_cells_repl_set:
  assumes "r \<noteq> 0" "r \<noteq> t" "K \<subseteq> patch_cells m z w h t ox oy"
  shows "patch_cells (repl_set L m ox oy z r K) z w h t ox oy = patch_cells m z w h t ox oy - K"
proof -
  have "ground_id_at (repl_set L m ox oy z r K) (cell_pos ox oy z c) \<noteq> Some t" if "c \<in> K" for c
    using that assms(1,2)
    by (auto simp: repl_set_def ground_id_at_def Item_Create_def split: option.splits)
  moreover have "ground_id_at (repl_set L m ox oy z r K) (cell_pos ox oy z c) = ground_id_at m (cell_pos ox oy z c)"
    if "c \<notin> K" for c
    using that by (rule ground_id_at_repl_set_outside)
  ultimately have "c \<in> patch_cells (repl_set L m ox oy z r K) z w h t ox oy \<longleftrightarrow>
      c \<in> patch_cells m z w h t ox oy - K" for c
    by (cases "c \<in> K") (simp_all add: patch_cells_def)
  then show ?thesis by blast
qed

text \<open>Taking a whole component away leaves the other components as they are.\<close>

lemma component_minus:
  assumes "k \<in> T" "c \<in> T" "c \<notin> component T k"
  shows "component (T - component T k) c = component T c"
proof
  show "component (T - component T k) c \<subseteq> component T c"
  proof
    fix d assume "d \<in> component (T - component T k) c"
    then have "(c, d) \<in> (adjacent (T - component T k))\<^sup>*" by (simp add: component_def)
    then have "(c, d) \<in> (adjacent T)\<^sup>*"
      by (rule rtrancl_mono [THEN subsetD, rotated]) (auto simp: adjacent_def)
    then show "d \<in> component T c" by (simp add: component_def)
  qed
  show "component T c \<subseteq> component (T - component T k) c"
  proof
    fix d assume "d \<in> component T c"
    then have "(c, d) \<in> (adjacent T)\<^sup>*" by (simp add: component_def)
    then show "d \<in> component (T - component T k) c"
    proof (induction rule: rtrancl_induct)
      case base
      then show ?case by simp
    next
      case (step a b)
      have bT: "b \<in> T" and ba: "b \<in> set (neighbours4 a)" using step(2) by (auto simp: adjacent_def)
      have "b \<in> component T c" using step(1,2) by (auto simp: component_def)
      have "b \<notin> component T k"
      proof
        assume "b \<in> component T k"
        then have "component T b = component T k" using assms(1) by (rule component_eq [rotated])
        moreover have "component T b = component T c"
          using assms(2) \<open>b \<in> component T c\<close> by (rule component_eq)
        ultimately have "component T c = component T k" by simp
        with component_refl [of c T] assms(3) show False by blast
      qed
      with bT ba step.IH show ?case by (auto intro: component_step)
    qed
  qed
qed


lemma mark_loop_sound:
  "T = patch_cells m z w h t ox oy \<Longrightarrow> (\<forall>s \<in> set q. s = c0 \<or> (c0, s) \<in> (adjacent T)\<^sup>+)
   \<Longrightarrow> n \<in> mark_loop z w h t ox oy m q v \<Longrightarrow> n \<in> v \<or> (c0, n) \<in> (adjacent T)\<^sup>+"
proof (induction z w h t ox oy m q v rule: mark_loop.induct)
  case (1 z w h t ox oy m v)
  then show ?case by simp
next
  case (2 z w h t ox oy m c queue v)
  let ?new = "filter (\<lambda>n. n \<in> T \<and> n \<notin> v) (neighbours4 c)"
  have scan: "scan4 m z w h t ox oy c (queue, v) = (queue @ ?new, v \<union> set ?new)"
    unfolding scan4_eq "2.prems"(1) by simp
  have c: "c = c0 \<or> (c0, c) \<in> (adjacent T)\<^sup>+" using "2.prems"(2) by simp
  have new: "(c0, k) \<in> (adjacent T)\<^sup>+" if "k \<in> set ?new" for k
  proof -
    from that have "(c, k) \<in> adjacent T" by (simp add: adjacent_def)
    with c show ?thesis by (auto intro: trancl_into_trancl)
  qed
  have q': "\<forall>s \<in> set (queue @ ?new). s = c0 \<or> (c0, s) \<in> (adjacent T)\<^sup>+"
    using "2.prems"(2) new by auto
  have "n \<in> mark_loop z w h t ox oy m (queue @ ?new) (v \<union> set ?new)"
    using "2.prems"(3) by (simp add: scan)
  from "2.IH" [OF refl, unfolded scan fst_conv snd_conv, OF "2.prems"(1) q' this]
  have "n \<in> v \<union> set ?new \<or> (c0, n) \<in> (adjacent T)\<^sup>+" .
  then show ?case using new by blast
qed

declare ff_loop.simps [simp del] mark_loop.simps [simp del]

text \<open>A cell is settled when it does not carry the ground \<open>tile_id\<close> or its component
  has at least \<open>min_size\<close> cells.\<close>

definition no_small_patch :: "host_map \<Rightarrow> 16 word \<Rightarrow> int \<Rightarrow> int \<Rightarrow> int \<Rightarrow> int \<Rightarrow> int \<Rightarrow> int \<times> int \<Rightarrow> bool" where
  "no_small_patch m tile_id min_size width height offsetX offsetY c \<longleftrightarrow>
     (c \<in> patch_cells m 7 width height tile_id offsetX offsetY \<longrightarrow>
      min_size \<le> int (card (component (patch_cells m 7 width height tile_id offsetX offsetY) c)))"

lemma card_component_pos:
  assumes "c \<in> patch_cells m z w h t ox oy"
  shows "0 < card (component (patch_cells m z w h t ox oy) c)"
proof -
  have "component (patch_cells m z w h t ox oy) c \<subseteq> rect w h"
    using component_subset [OF assms] patch_cells_subset by blast
  then have "finite (component (patch_cells m z w h t ox oy) c)"
    using finite_rect finite_subset by blast
  moreover have "component (patch_cells m z w h t ox oy) c \<noteq> {}"
    using component_refl [of c "patch_cells m z w h t ox oy"] by blast
  ultimately show ?thesis by (simp add: card_gt_0_iff)
qed

lemma patch_cell_eq:
  "patch_cell L t n w h ox oy c (m, V) =
     (if c \<in> V \<or> ground_id_at m (cell_pos ox oy 7 c) \<noteq> Some t then (m, V)
      else let K = component (patch_cells m 7 w h t ox oy) c;
               m' = (if fst (floodFillCount L m (fst c) (snd c) 7 w h t 0 ox oy) < n
                        \<and> fst (floodFillCount L m (fst c) (snd c) 7 w h t 0 ox oy) > 0
                     then snd (floodFillCount L m (fst c) (snd c) 7 w h t
                                 (if t = 4608 then 4526 else 4608) ox oy)
                     else m)
           in (m', mark_loop 7 w h t ox oy m' [c] (insert c V)))"
  by (cases c) (auto simp: patch_cell_def Let_def cell_pos_def split: option.splits)

lemma patch_cell_cases:
  assumes "c \<in> rect w h"
  obtains (skip) "c \<in> V \<or> c \<notin> patch_cells m 7 w h t ox oy"
      "patch_cell L t n w h ox oy c (m, V) = (m, V)"
    | (keep) "c \<notin> V" "c \<in> patch_cells m 7 w h t ox oy"
      "n \<le> int (card (component (patch_cells m 7 w h t ox oy) c))"
      "patch_cell L t n w h ox oy c (m, V) = (m, mark_loop 7 w h t ox oy m [c] (insert c V))"
    | (replace) "c \<notin> V" "c \<in> patch_cells m 7 w h t ox oy"
      "int (card (component (patch_cells m 7 w h t ox oy) c)) < n"
      "patch_cell L t n w h ox oy c (m, V) =
         (repl_set L m ox oy 7 (if t = 4608 then 4526 else 4608) (component (patch_cells m 7 w h t ox oy) c),
          mark_loop 7 w h t ox oy
            (repl_set L m ox oy 7 (if t = 4608 then 4526 else 4608) (component (patch_cells m 7 w h t ox oy) c))
            [c] (insert c V))"
proof (cases "c \<in> V \<or> c \<notin> patch_cells m 7 w h t ox oy")
  case True
  then have "patch_cell L t n w h ox oy c (m, V) = (m, V)"
    using assms by (auto simp: patch_cell_eq patch_cells_def)
  with True show ?thesis by (rule skip)
next
  case False
  then have cV: "c \<notin> V" and cT: "c \<in> patch_cells m 7 w h t ox oy" by simp_all
  then have g: "ground_id_at m (cell_pos ox oy 7 c) = Some t" by (simp add: patch_cells_def)
  have cT': "(fst c, snd c) \<in> patch_cells m 7 w h t ox oy" using cT by simp
  note ff = floodFillCount_correct [OF cT', of L, simplified]
  have pos: "0 < int (card (component (patch_cells m 7 w h t ox oy) c))"
    using card_component_pos [OF cT] by simp
  show ?thesis
  proof (cases "n \<le> int (card (component (patch_cells m 7 w h t ox oy) c))")
    case True
    then have "patch_cell L t n w h ox oy c (m, V) = (m, mark_loop 7 w h t ox oy m [c] (insert c V))"
      using cV g by (simp add: patch_cell_eq ff Let_def)
    with cV cT True show ?thesis by (rule keep)
  next
    case False
    then have lt: "int (card (component (patch_cells m 7 w h t ox oy) c)) < n" by simp
    then have "patch_cell L t n w h ox oy c (m, V) =
         (repl_set L m ox oy 7 (if t = 4608 then 4526 else 4608) (component (patch_cells m 7 w h t ox oy) c),
          mark_loop 7 w h t ox oy
            (repl_set L m ox oy 7 (if t = 4608 then 4526 else 4608) (component (patch_cells m 7 w h t ox oy) c))
            [c] (insert c V))"
      using cV g pos by (simp add: patch_cell_eq ff Let_def)
    with cV cT lt show ?thesis by (rule replace)
  qed
qed


lemma patch_cell_inv:
  assumes c: "c \<in> rect w h"
    and inv: "\<forall>d \<in> S \<union> V. no_small_patch m t n w h ox oy d"
    and step: "patch_cell L t n w h ox oy c (m, V) = (m', V')"
  shows "\<forall>d \<in> insert c S \<union> V'. no_small_patch m' t n w h ox oy d"
proof -
  let ?T = "patch_cells m 7 w h t ox oy"
  let ?K = "component ?T c"
  from c show ?thesis
  proof (cases rule: patch_cell_cases [where V = V and m = m and t = t and ox = ox and oy = oy
        and L = L and n = n])
    case skip
    with step have "m' = m" "V' = V" by simp_all
    moreover have "no_small_patch m t n w h ox oy c"
      using skip(1) inv by (auto simp: no_small_patch_def)
    ultimately show ?thesis using inv by auto
  next
    case keep
    from keep(4) step have "(m', V') = (m, mark_loop 7 w h t ox oy m [c] (insert c V))" by simp
    then have m': "m' = m" and V': "V' = mark_loop 7 w h t ox oy m [c] (insert c V)" by blast+
    have Kgood: "no_small_patch m t n w h ox oy d" if "d \<in> ?K" for d
    proof -
      from that keep(2) have "component ?T d = ?K" by (rule component_eq [rotated])
      with keep(3) show ?thesis by (simp add: no_small_patch_def)
    qed
    have "no_small_patch m t n w h ox oy d" if "d \<in> V'" for d
    proof -
      from mark_loop_sound [OF refl _ that [unfolded V'], of c]
      have "d \<in> insert c V \<or> (c, d) \<in> (adjacent ?T)\<^sup>+" by simp
      then consider "d = c" | "d \<in> V" | "(c, d) \<in> (adjacent ?T)\<^sup>+" by blast
      then show ?thesis
      proof cases
        case 1
        then show ?thesis using Kgood by simp
      next
        case 2
        then show ?thesis using inv by simp
      next
        case 3
        then have "d \<in> ?K" by (simp add: component_def trancl_into_rtrancl)
        then show ?thesis by (rule Kgood)
      qed
    qed
    moreover have "no_small_patch m t n w h ox oy c" using Kgood by simp
    ultimately show ?thesis using inv m' by auto
  next
    case replace
    let ?r = "if t = 4608 then 4526 else 4608 :: 16 word"
    from replace(4) step have "(m', V') = (repl_set L m ox oy 7 ?r ?K,
        mark_loop 7 w h t ox oy (repl_set L m ox oy 7 ?r ?K) [c] (insert c V))" by simp
    then have m': "m' = repl_set L m ox oy 7 ?r ?K"
      and V': "V' = mark_loop 7 w h t ox oy m' [c] (insert c V)" by blast+
    have r: "?r \<noteq> 0" "?r \<noteq> t" by auto
    have KT: "?K \<subseteq> ?T" using replace(2) by (rule component_subset)
    have T': "patch_cells m' 7 w h t ox oy = ?T - ?K"
      unfolding m' using r KT by (rule patch_cells_repl_set)
    have old: "no_small_patch m' t n w h ox oy d" if "no_small_patch m t n w h ox oy d" for d
    proof (cases "d \<in> ?T - ?K")
      case True
      then have dT: "d \<in> ?T" and dK: "d \<notin> ?K" by simp_all
      have eq: "component (?T - ?K) d = component ?T d"
        using replace(2) dT dK by (rule component_minus)
      from that dT have "n \<le> int (card (component ?T d))" by (simp add: no_small_patch_def)
      then show ?thesis unfolding no_small_patch_def T' eq by simp
    next
      case False
      then show ?thesis by (auto simp: no_small_patch_def T')
    qed
    have cnew: "no_small_patch m' t n w h ox oy c" by (simp add: no_small_patch_def T')
    have sub: "d \<in> insert c V" if "d \<in> V'" for d
    proof -
      from mark_loop_sound [OF refl _ that [unfolded V'], of c]
      have "d \<in> insert c V \<or> (c, d) \<in> (adjacent (?T - ?K))\<^sup>+" by (simp add: T')
      moreover have "(c, d) \<notin> (adjacent (?T - ?K))\<^sup>+"
      proof
        assume "(c, d) \<in> (adjacent (?T - ?K))\<^sup>+"
        then obtain k where "(c, k) \<in> adjacent (?T - ?K)" by (auto dest: tranclD)
        then have k: "k \<in> set (neighbours4 c)" "k \<in> ?T" "k \<notin> ?K" by (auto simp: adjacent_def)
        have "k \<in> ?K" using component_refl k(1,2) by (rule component_step)
        with k(3) show False by simp
      qed
      ultimately show ?thesis by simp
    qed
    show ?thesis
    proof
      fix d assume "d \<in> insert c S \<union> V'"
      then consider "d = c" | "d \<in> S \<union> V" using sub by blast
      then show "no_small_patch m' t n w h ox oy d"
      proof cases
        case 1
        then show ?thesis using cnew by simp
      next
        case 2
        with inv have "no_small_patch m t n w h ox oy d" by blast
        then show ?thesis by (rule old)
      qed
    qed
  qed
qed

lemma patch_cell_fixed:
  assumes "c \<in> rect w h" and "\<forall>d \<in> patch_cells m 7 w h t ox oy. no_small_patch m t n w h ox oy d"
  shows "fst (patch_cell L t n w h ox oy c (m, V)) = m"
  using assms(1)
proof (cases rule: patch_cell_cases [where V = V and m = m and t = t and ox = ox and oy = oy
      and L = L and n = n])
  case skip
  then show ?thesis by simp
next
  case keep
  then show ?thesis by simp
next
  case replace
  with assms(2) show ?thesis by (auto simp: no_small_patch_def)
qed

lemma fold_patch_inv:
  "set cs \<subseteq> rect w h \<Longrightarrow> \<forall>d \<in> S \<union> V. no_small_patch m t n w h ox oy d \<Longrightarrow>
   \<forall>d \<in> S \<union> set cs. no_small_patch (fst (fold (patch_cell L t n w h ox oy) cs (m, V))) t n w h ox oy d"
proof (induction cs arbitrary: S m V)
  case Nil
  then show ?case by simp
next
  case (Cons c cs)
  obtain m' V' where st: "patch_cell L t n w h ox oy c (m, V) = (m', V')"
    by (cases "patch_cell L t n w h ox oy c (m, V)")
  from Cons.prems(1) have c: "c \<in> rect w h" and cs: "set cs \<subseteq> rect w h" by simp_all
  from patch_cell_inv [OF c Cons.prems(2) st]
  have "\<forall>d \<in> insert c S \<union> V'. no_small_patch m' t n w h ox oy d" .
  from Cons.IH [OF cs this] show ?case by (simp add: st)
qed

lemma fold_patch_fixed:
  "set cs \<subseteq> rect w h \<Longrightarrow> \<forall>d \<in> patch_cells m 7 w h t ox oy. no_small_patch m t n w h ox oy d \<Longrightarrow>
   fst (fold (patch_cell L t n w h ox oy) cs (m, V)) = m"
proof (induction cs arbitrary: V)
  case Nil
  then show ?case by simp
next
  case (Cons c cs)
  from Cons.prems(1) have c: "c \<in> rect w h" and cs: "set cs \<subseteq> rect w h" by simp_all
  obtain m' V' where st: "patch_cell L t n w h ox oy c (m, V) = (m', V')"
    by (cases "patch_cell L t n w h ox oy c (m, V)")
  with patch_cell_fixed [OF c Cons.prems(2), of L V] have "m' = m" by simp
  with Cons.IH [OF cs Cons.prems(2), of V'] st show ?case by simp
qed

lemma set_cells [simp]: "set (cells w h) = rect w h"
  by (auto simp: cells_def rect_def)

text \<open>
  Claim C7: for every map, tile id, minimum size, width, height and offsets, a second run
  of \<open>removeSmallPatches\<close> right after a first one with the same arguments leaves the map
  as the first run made it, and after the first run no cell of the rectangle with ground
  \<open>tile_id\<close> (on floor 7, the floor the source works on) lies in a connected component of
  such cells whose size is strictly between 0 and \<open>min_size\<close>.

  The statement has no side condition: a replacement id for which \<^verbatim>\<open>Item::Create\<close> returns
  null still takes the ground \<open>tile_id\<close> away, and for a negative width or height, where
  the source throws when it allocates the visited matrix before it touches the map, the
  model returns the map as it is.
\<close>

theorem removeSmallPatches_idempotent:
  "removeSmallPatches L (removeSmallPatches L m t n w h ox oy) t n w h ox oy =
     removeSmallPatches L m t n w h ox oy
   \<and> (\<forall>c \<in> patch_cells (removeSmallPatches L m t n w h ox oy) 7 w h t ox oy.
        \<not> (0 < int (card (component (patch_cells (removeSmallPatches L m t n w h ox oy) 7 w h t ox oy) c))
           \<and> int (card (component (patch_cells (removeSmallPatches L m t n w h ox oy) 7 w h t ox oy) c)) < n))"
proof -
  let ?m1 = "removeSmallPatches L m t n w h ox oy"
  have "\<forall>d \<in> {} \<union> set (cells w h). no_small_patch ?m1 t n w h ox oy d"
    unfolding removeSmallPatches_def by (rule fold_patch_inv) simp_all
  then have "\<forall>d \<in> rect w h. no_small_patch ?m1 t n w h ox oy d" by simp
  then have good: "\<forall>d \<in> patch_cells ?m1 7 w h t ox oy. no_small_patch ?m1 t n w h ox oy d"
    using patch_cells_subset [of ?m1 7 w h t ox oy] by blast
  have "removeSmallPatches L ?m1 t n w h ox oy = ?m1"
    unfolding removeSmallPatches_def [of L ?m1] by (rule fold_patch_fixed [OF _ good]) simp
  moreover have "\<not> (0 < int (card (component (patch_cells ?m1 7 w h t ox oy) c))
           \<and> int (card (component (patch_cells ?m1 7 w h t ox oy) c)) < n)"
    if "c \<in> patch_cells ?m1 7 w h t ox oy" for c
    using good that by (auto simp: no_small_patch_def)
  ultimately show ?thesis by blast
qed

text \<open>A map of two adjacent land tiles, a patch of size 2 that a run with
  \<open>min_size = 2\<close> keeps.\<close>

definition two_land :: host_map where
  "two_land = [(0, 0, 7) \<mapsto> \<lparr>ground = Some 100, items = []\<rparr>,
               (1, 0, 7) \<mapsto> \<lparr>ground = Some 100, items = []\<rparr>]"

lemma remove_two_land: "removeSmallPatches L two_land 100 2 2 1 0 0 = two_land"
  by (simp add: removeSmallPatches_def cells_def upto.simps patch_cell_def floodFillCount_def
      ff_loop.simps mark_loop.simps scan4_def neighbours4_def visit_def replace_ground_def
      ground_id_at_def two_land_def Let_def)

theorem removeSmallPatches_idempotent_witness:
  "(0, 0) \<in> patch_cells (removeSmallPatches test_lib two_land 100 2 2 1 0 0) 7 2 1 100 0 0
   \<and> removeSmallPatches test_lib (removeSmallPatches test_lib two_land 100 2 2 1 0 0) 100 2 2 1 0 0 =
       two_land
   \<and> \<not> (0 < int (card (component (patch_cells two_land 7 2 1 100 0 0) (0, 0)))
          \<and> int (card (component (patch_cells two_land 7 2 1 100 0 0) (0, 0))) < 2)"
proof -
  have mem: "(0, 0) \<in> patch_cells two_land 7 2 1 100 0 0"
    by (simp add: patch_cells_def rect_def cell_pos_def ground_id_at_def two_land_def)
  from removeSmallPatches_idempotent [of test_lib two_land 100 2 2 1 0 0] mem
  show ?thesis by (auto simp: remove_two_land)
qed

subsection \<open>The path search on an all-void grid\<close>

text \<open>Cells inside the \<open>w \<times> h\<close> rectangle, tables of \<open>h\<close> rows of \<open>w\<close> entries, the
  Manhattan distance, and the entry of a table at a cell.\<close>

definition inb :: "int \<Rightarrow> int \<Rightarrow> int \<times> int \<Rightarrow> bool" where
  "inb w h c \<longleftrightarrow> 0 \<le> fst c \<and> fst c < w \<and> 0 \<le> snd c \<and> snd c < h"

definition wf_table :: "'a list list \<Rightarrow> int \<Rightarrow> int \<Rightarrow> bool" where
  "wf_table T w h \<longleftrightarrow> length T = nat h \<and> (\<forall>row \<in> set T. length row = nat w)"

definition manhattan :: "int \<times> int \<Rightarrow> int \<times> int \<Rightarrow> int" where
  "manhattan a b = \<bar>fst b - fst a\<bar> + \<bar>snd b - snd a\<bar>"

definition tab_at :: "'a list list \<Rightarrow> int \<times> int \<Rightarrow> 'a" where
  "tab_at T c = grid_at T (fst c) (snd c)"

lemma wf_table_row: "wf_table T w h \<Longrightarrow> 0 \<le> y \<Longrightarrow> y < h \<Longrightarrow> length (T ! nat y) = nat w"
  by (simp add: wf_table_def)

lemma in_grid_wf: "wf_table T w h \<Longrightarrow> in_grid T x y \<longleftrightarrow> inb w h (x, y)"
  using wf_table_row [of T w h y] by (auto simp: in_grid_def inb_def wf_table_def split: if_splits)

lemma wf_table_put: "wf_table T w h \<Longrightarrow> wf_table (grid_put T x y v) w h"
proof -
  assume a: "wf_table T w h"
  show ?thesis
  proof (cases "nat y < length T")
    case True
    then have "length (T ! nat y) = nat w" using a by (simp add: wf_table_def)
    then show ?thesis using a
      by (auto simp: wf_table_def grid_put_def dest!: set_update_subset_insert [THEN subsetD])
  next
    case False
    then show ?thesis using a by (simp add: grid_put_def list_update_beyond)
  qed
qed

lemma tab_at_put:
  "wf_table T w h \<Longrightarrow> inb w h (x, y) \<Longrightarrow> inb w h c \<Longrightarrow>
   tab_at (grid_put T x y v) c = (if c = (x, y) then v else tab_at T c)"
  by (cases c) (auto simp: tab_at_def grid_at_def grid_put_def wf_table_def inb_def nth_list_update)

lemma wf_table_replicate: "wf_table (replicate (nat h) (replicate (nat w) v)) w h"
  by (simp add: wf_table_def)

lemma tab_at_replicate: "inb w h c \<Longrightarrow> tab_at (replicate (nat h) (replicate (nat w) v)) c = v"
  by (simp add: tab_at_def grid_at_def inb_def)

lemma neighbour_manhattan: "n \<in> set (neighbours4 c) \<Longrightarrow> manhattan c n = 1"
  by (cases c, cases n) (auto simp: neighbours4_def manhattan_def)

lemma manhattan_triangle: "manhattan a c \<le> manhattan a b + manhattan b c"
  by (simp add: manhattan_def)

lemma manhattan_sym: "manhattan a b = manhattan b a"
  by (simp add: manhattan_def)

text \<open>The node popped has the least \<open>f\<close> of the open set, whatever the library's choice
  among equals.\<close>

lemma pq_top_min:
  assumes "q \<noteq> []" "n \<in> set q"
  shows "node_f (q ! pq_top L q) \<le> node_f n"
proof -
  let ?P = "\<lambda>n. node_f n \<noteq> Min (node_f ` set q)"
  have "first_min q < length q" using assms(1) by (rule first_min_lt)
  then have "\<not> ?P (q ! first_min q)"
    unfolding first_min_def by (rule nth_length_takeWhile)
  then have "node_f (q ! first_min q) = Min (node_f ` set q)" by simp
  then have "node_f (q ! first_min q) \<le> node_f n" using assms(2) by simp
  then show ?thesis using assms(2) by (auto simp: pq_top_def Let_def)
qed


text \<open>The all-void grid of a width and height: every cell 0.\<close>

definition void_grid :: "int \<Rightarrow> int \<Rightarrow> int list list" where
  "void_grid w h = replicate (nat h) (replicate (nat w) 0)"

text \<open>The invariant of the search loop on the all-void grid, for the start \<open>s\<close> and the
  goal \<open>t\<close>. The tables keep their dimensions; \<open>gScore\<close> is 0 at the start, at most the
  initial value 999999 everywhere, and at least five times the distance from the start
  wherever it is below 999999; \<open>cameFrom\<close> is \<open>(-1, -1)\<close> at the start.\<close>

definition inv_tab :: "int \<times> int \<Rightarrow> int \<Rightarrow> int \<Rightarrow> int list list \<Rightarrow> (int \<times> int) list list \<Rightarrow> bool" where
  "inv_tab s w h G C \<longleftrightarrow>
     wf_table G w h \<and> wf_table C w h \<and> inb w h s \<and> tab_at G s = 0 \<and> tab_at C s = (-1, -1) \<and>
     (\<forall>u. inb w h u \<longrightarrow> min (5 * manhattan s u) 999999 \<le> tab_at G u \<and> tab_at G u \<le> 999999)"

text \<open>Every open node is at a cell inside the rectangle whose score has been lowered, its
  \<open>g\<close> is at least the score the cell has now, and its \<open>h\<close> is the distance to the goal.\<close>

definition inv_nodes :: "int \<times> int \<Rightarrow> int \<Rightarrow> int \<Rightarrow> node list \<Rightarrow> int list list \<Rightarrow> bool" where
  "inv_nodes t w h q G \<longleftrightarrow>
     (\<forall>n \<in> set q. case n of (nx, ny, g, hh, p) \<Rightarrow>
        inb w h (nx, ny) \<and> tab_at G (nx, ny) \<le> g \<and> tab_at G (nx, ny) < 999999 \<and> hh = manhattan (nx, ny) t)"

text \<open>A cell is fresh when the open set holds a node for it with its current score. Every
  cell is fresh or expanded: no neighbour's score is more than 5 above its own. While the
  neighbours \<open>ns\<close> of the popped cell \<open>c\<close> are still to be looked at, they are excepted.\<close>

definition fresh :: "node list \<Rightarrow> int list list \<Rightarrow> int \<times> int \<Rightarrow> bool" where
  "fresh q G u \<longleftrightarrow> (\<exists>hh p. (fst u, snd u, tab_at G u, hh, p) \<in> set q)"

definition inv_exp :: "int \<Rightarrow> int \<Rightarrow> int \<times> int \<Rightarrow> (int \<times> int) list \<Rightarrow> node list \<Rightarrow> int list list \<Rightarrow> bool" where
  "inv_exp w h c ns q G \<longleftrightarrow>
     (\<forall>u. inb w h u \<longrightarrow> fresh q G u \<or>
        (\<forall>u' \<in> set (neighbours4 u). inb w h u' \<longrightarrow> (u = c \<and> u' \<in> set ns) \<or> tab_at G u' \<le> tab_at G u + 5))"

text \<open>The goal is never expanded: once its score is below 999999 it stays fresh.\<close>

definition inv_goal :: "int \<times> int \<Rightarrow> node list \<Rightarrow> int list list \<Rightarrow> bool" where
  "inv_goal t q G \<longleftrightarrow> (tab_at G t < 999999 \<longrightarrow> fresh q G t)"

text \<open>\<open>cameFrom\<close> of a cell with a lowered score, other than the start, is a cell inside
  the rectangle, next to it, whose score is at least 5 lower.\<close>

definition inv_came :: "int \<times> int \<Rightarrow> int \<Rightarrow> int \<Rightarrow> int list list \<Rightarrow> (int \<times> int) list list \<Rightarrow> bool" where
  "inv_came s w h G C \<longleftrightarrow>
     (\<forall>u. inb w h u \<longrightarrow> u \<noteq> s \<longrightarrow> tab_at G u < 999999 \<longrightarrow>
        inb w h (tab_at C u) \<and> u \<in> set (neighbours4 (tab_at C u)) \<and> tab_at G (tab_at C u) + 5 \<le> tab_at G u)"

lemma tab_at_void: "inb w h c \<Longrightarrow> tab_at (void_grid w h) c = 0"
  by (simp add: void_grid_def tab_at_replicate)

lemma wf_void: "wf_table (void_grid w h) w h"
  by (simp add: void_grid_def wf_table_replicate)

text \<open>The loop body for one neighbour, on the all-void grid with tables of the right
  dimensions: no read or write is out of range, and every move costs 5.\<close>

lemma relax_eq:
  assumes "wf_table G w h" "wf_table C w h" "inb w h c"
  shows "relax (void_grid w h) (fst t) (snd t) w h c n (Inr (q, G, C)) =
     (if inb w h n \<and> tab_at G c + 5 < tab_at G n
      then Inr (q @ [(fst n, snd n, tab_at G c + 5, manhattan n t, c)],
                grid_put G (fst n) (snd n) (tab_at G c + 5),
                grid_put C (fst n) (snd n) c)
      else Inr (q, G, C))"
proof (cases "inb w h n")
  case False
  then show ?thesis by (cases c, cases n) (auto simp: relax_def inb_def)
next
  case True
  then have "tab_at (void_grid w h) n = 0" by (rule tab_at_void)
  then have z: "grid_at (void_grid w h) (fst n) (snd n) = 0" by (simp add: tab_at_def)
  have ig: "in_grid (void_grid w h) (fst n) (snd n)" "in_grid G (fst c) (snd c)"
    "in_grid G (fst n) (snd n)" "in_grid C (fst n) (snd n)"
    using True assms by (simp_all add: in_grid_wf [OF wf_void] in_grid_wf [OF assms(1)] in_grid_wf [OF assms(2)])
  obtain cx cy nx ny where cn: "c = (cx, cy)" "n = (nx, ny)" by (cases c, cases n)
  from True cn have b: "nx \<ge> 0 \<and> nx < w \<and> ny \<ge> 0 \<and> ny < h" by (simp add: inb_def)
  show ?thesis using True z ig b unfolding cn
    by (simp add: relax_def Let_def tab_at_def manhattan_def)
qed


lemma inv_tabD:
  assumes "inv_tab s w h G C"
  shows "wf_table G w h" "wf_table C w h" "inb w h s" "tab_at G s = 0" "tab_at C s = (-1, -1)"
    and "\<And>u. inb w h u \<Longrightarrow> min (5 * manhattan s u) 999999 \<le> tab_at G u"
    and "\<And>u. inb w h u \<Longrightarrow> tab_at G u \<le> 999999"
  using assms unfolding inv_tab_def by blast+

lemma inv_expD:
  assumes "inv_exp w h c ns q G" "inb w h u"
  shows "fresh q G u \<or> (\<forall>u' \<in> set (neighbours4 u). inb w h u' \<longrightarrow>
           (u = c \<and> u' \<in> set ns) \<or> tab_at G u' \<le> tab_at G u + 5)"
  using assms unfolding inv_exp_def by blast

lemma inv_cameD:
  assumes "inv_came s w h G C" "inb w h u" "u \<noteq> s" "tab_at G u < 999999"
  shows "inb w h (tab_at C u)" "u \<in> set (neighbours4 (tab_at C u))"
    "tab_at G (tab_at C u) + 5 \<le> tab_at G u"
  using assms unfolding inv_came_def by blast+

lemma inv_nodesD:
  assumes "inv_nodes t w h q G" "(nx, ny, g, hh, p) \<in> set q"
  shows "inb w h (nx, ny)" "tab_at G (nx, ny) \<le> g" "tab_at G (nx, ny) < 999999"
    "hh = manhattan (nx, ny) t"
  using assms unfolding inv_nodes_def by fastforce+

lemma fresh_append: "fresh q G u \<Longrightarrow> fresh (q @ m) G u"
  unfolding fresh_def by auto

lemma fresh_new: "tab_at G n = v \<Longrightarrow> fresh (q @ [(fst n, snd n, v, hh, p)]) G n"
  unfolding fresh_def by (intro exI [of _ hh] exI [of _ p]) simp

lemma fresh_cong: "tab_at G' u = tab_at G u \<Longrightarrow> fresh q G' u = fresh q G u"
  unfolding fresh_def by simp

lemma neighbour_neq: "n \<in> set (neighbours4 c) \<Longrightarrow> n \<noteq> c"
  by (cases c) (auto simp: neighbours4_def)

lemma manhattan_nonneg [simp]: "0 \<le> manhattan a b"
  by (simp add: manhattan_def)

lemma manhattan_step: "n \<in> set (neighbours4 c) \<Longrightarrow> manhattan s n \<le> manhattan s c + 1"
  using manhattan_triangle [of s n c] neighbour_manhattan [of n c] by simp

lemma put_tab:
  assumes "inv_tab s w h G C" "inb w h c" "n \<in> set (neighbours4 c)" "inb w h n"
    "tab_at G c + 5 < tab_at G n"
  shows "inv_tab s w h (grid_put G (fst n) (snd n) (tab_at G c + 5)) (grid_put C (fst n) (snd n) c)"
    and "n \<noteq> s"
proof -
  note wf = inv_tabD(1,2) [OF assms(1)] and s = inv_tabD(3,4,5) [OF assms(1)]
  have b: "min (5 * manhattan s u) 999999 \<le> tab_at G u \<and> tab_at G u \<le> 999999" if "inb w h u" for u
    using inv_tabD(6,7) [OF assms(1) that] by simp
  have n': "inb w h (fst n, snd n)" using assms(4) by simp
  have "0 \<le> tab_at G c" using b [OF assms(2)] manhattan_nonneg [of s c] by linarith
  with assms(5) s(2) show ns: "n \<noteq> s" by auto
  have G': "tab_at (grid_put G (fst n) (snd n) (tab_at G c + 5)) u =
      (if u = n then tab_at G c + 5 else tab_at G u)" if "inb w h u" for u
    using tab_at_put [OF wf(1) n' that] by simp
  have C': "tab_at (grid_put C (fst n) (snd n) c) u = (if u = n then c else tab_at C u)"
    if "inb w h u" for u
    using tab_at_put [OF wf(2) n' that] by simp
  have lb: "5 * manhattan s n \<le> tab_at G c + 5"
    using b [OF assms(2)] b [OF assms(4)] assms(5) manhattan_step [OF assms(3), of s] by linarith
  have ub: "tab_at G c + 5 \<le> 999999" using assms(5) b [OF assms(4)] by linarith
  show "inv_tab s w h (grid_put G (fst n) (snd n) (tab_at G c + 5)) (grid_put C (fst n) (snd n) c)"
    unfolding inv_tab_def
  proof (intro conjI allI impI)
    show "wf_table (grid_put G (fst n) (snd n) (tab_at G c + 5)) w h" using wf(1) by (rule wf_table_put)
    show "wf_table (grid_put C (fst n) (snd n) c) w h" using wf(2) by (rule wf_table_put)
    show "inb w h s" by fact
    show "tab_at (grid_put G (fst n) (snd n) (tab_at G c + 5)) s = 0" using G' [OF s(1)] ns s(2) by simp
    show "tab_at (grid_put C (fst n) (snd n) c) s = (-1, -1)" using C' [OF s(1)] ns s(3) by simp
  next
    fix u assume u: "inb w h u"
    show "min (5 * manhattan s u) 999999 \<le> tab_at (grid_put G (fst n) (snd n) (tab_at G c + 5)) u"
      using G' [OF u] lb b [OF u] by auto
    show "tab_at (grid_put G (fst n) (snd n) (tab_at G c + 5)) u \<le> 999999"
      using G' [OF u] ub b [OF u] by simp
  qed
qed

lemma put_nodes:
  assumes "wf_table G w h" "inb w h n" "v < tab_at G n" "tab_at G n \<le> 999999"
    and "inv_nodes t w h q G"
  shows "inv_nodes t w h (q @ [(fst n, snd n, v, manhattan n t, c)]) (grid_put G (fst n) (snd n) v)"
proof -
  have n': "inb w h (fst n, snd n)" using assms(2) by simp
  have G': "tab_at (grid_put G (fst n) (snd n) v) u = (if u = n then v else tab_at G u)"
    if "inb w h u" for u
    using tab_at_put [OF assms(1) n' that] by simp
  show ?thesis unfolding inv_nodes_def
  proof
    fix m assume m: "m \<in> set (q @ [(fst n, snd n, v, manhattan n t, c)])"
    obtain mx my g hh p where mm: "m = (mx, my, g, hh, p)" by (cases m)
    show "case m of (nx, ny, g, hh, p) \<Rightarrow>
        inb w h (nx, ny) \<and> tab_at (grid_put G (fst n) (snd n) v) (nx, ny) \<le> g \<and>
        tab_at (grid_put G (fst n) (snd n) v) (nx, ny) < 999999 \<and> hh = manhattan (nx, ny) t"
    proof (cases "m \<in> set q")
      case True
      with mm have "(mx, my, g, hh, p) \<in> set q" by simp
      note old = inv_nodesD [OF assms(5) this]
      show ?thesis using old G' [OF old(1)] assms(3) unfolding mm by auto
    next
      case False
      with m have "m = (fst n, snd n, v, manhattan n t, c)" by simp
      then show ?thesis using G' [OF n'] assms(2,3,4) by simp
    qed
  qed
qed

lemma put_exp:
  assumes "wf_table G w h" "inb w h c" "n \<in> set (neighbours4 c)" "inb w h n"
    "tab_at G c + 5 < tab_at G n"
    and "inv_exp w h c (n # ns) q G"
  shows "inv_exp w h c ns (q @ [(fst n, snd n, tab_at G c + 5, manhattan n t, c)])
           (grid_put G (fst n) (snd n) (tab_at G c + 5))"
proof -
  let ?v = "tab_at G c + 5"
  let ?G = "grid_put G (fst n) (snd n) ?v"
  let ?q = "q @ [(fst n, snd n, ?v, manhattan n t, c)]"
  have n': "inb w h (fst n, snd n)" using assms(4) by simp
  have G': "tab_at ?G u = (if u = n then ?v else tab_at G u)" if "inb w h u" for u
    using tab_at_put [OF assms(1) n' that] by simp
  have nc: "n \<noteq> c" using assms(3) by (rule neighbour_neq)
  show ?thesis unfolding inv_exp_def
  proof (intro allI impI)
    fix u assume u: "inb w h u"
    show "fresh ?q ?G u \<or> (\<forall>u' \<in> set (neighbours4 u). inb w h u' \<longrightarrow>
             (u = c \<and> u' \<in> set ns) \<or> tab_at ?G u' \<le> tab_at ?G u + 5)"
    proof (cases "u = n")
      case True
      have "tab_at ?G n = ?v" using G' [OF assms(4)] by simp
      then have "fresh ?q ?G n" by (rule fresh_new)
      then show ?thesis using True by simp
    next
      case False
      then have Gu: "tab_at ?G u = tab_at G u" using G' [OF u] by simp
      from assms(6) u have "fresh q G u \<or> (\<forall>u' \<in> set (neighbours4 u). inb w h u' \<longrightarrow>
             (u = c \<and> u' \<in> set (n # ns)) \<or> tab_at G u' \<le> tab_at G u + 5)"
        by (rule inv_expD)
      then show ?thesis
      proof
        assume "fresh q G u"
        then have "fresh q ?G u" using fresh_cong [OF Gu] by simp
        then have "fresh ?q ?G u" by (rule fresh_append)
        then show ?thesis ..
      next
        assume a: "\<forall>u' \<in> set (neighbours4 u). inb w h u' \<longrightarrow>
             (u = c \<and> u' \<in> set (n # ns)) \<or> tab_at G u' \<le> tab_at G u + 5"
        have "(u = c \<and> u' \<in> set ns) \<or> tab_at ?G u' \<le> tab_at ?G u + 5"
          if u': "u' \<in> set (neighbours4 u)" "inb w h u'" for u'
        proof (cases "u' = n")
          case True
          from a u' have "(u = c \<and> u' \<in> set (n # ns)) \<or> tab_at G u' \<le> tab_at G u + 5" by blast
          then have "tab_at ?G u' \<le> tab_at G u + 5"
            using True G' [OF u'(2)] assms(5) by auto
          then show ?thesis using Gu by simp
        next
          case False
          from a u' have "(u = c \<and> u' \<in> set (n # ns)) \<or> tab_at G u' \<le> tab_at G u + 5" by blast
          then show ?thesis using False G' [OF u'(2)] Gu by auto
        qed
        then show ?thesis by blast
      qed
    qed
  qed
qed

lemma skip_exp:
  assumes "\<not> (inb w h n \<and> tab_at G c + 5 < tab_at G n)"
    and "inv_exp w h c (n # ns) q G"
  shows "inv_exp w h c ns q G"
  unfolding inv_exp_def
proof (intro allI impI)
  fix u assume u: "inb w h u"
  from assms(2) u have "fresh q G u \<or> (\<forall>u' \<in> set (neighbours4 u). inb w h u' \<longrightarrow>
         (u = c \<and> u' \<in> set (n # ns)) \<or> tab_at G u' \<le> tab_at G u + 5)"
    by (rule inv_expD)
  then show "fresh q G u \<or> (\<forall>u' \<in> set (neighbours4 u). inb w h u' \<longrightarrow>
         (u = c \<and> u' \<in> set ns) \<or> tab_at G u' \<le> tab_at G u + 5)"
    using assms(1) by fastforce
qed

lemma put_goal:
  assumes "wf_table G w h" "inb w h n" "inb w h t" "v < tab_at G n"
    and "inv_goal t q G"
  shows "inv_goal t (q @ [(fst n, snd n, v, manhattan n t, c)]) (grid_put G (fst n) (snd n) v)"
proof -
  have n': "inb w h (fst n, snd n)" using assms(2) by simp
  have G': "tab_at (grid_put G (fst n) (snd n) v) u = (if u = n then v else tab_at G u)"
    if "inb w h u" for u
    using tab_at_put [OF assms(1) n' that] by simp
  show ?thesis
  proof (cases "t = n")
    case True
    have "tab_at (grid_put G (fst n) (snd n) v) n = v" using G' [OF assms(2)] by simp
    then have "fresh (q @ [(fst n, snd n, v, manhattan n t, c)]) (grid_put G (fst n) (snd n) v) n"
      by (rule fresh_new)
    then show ?thesis using True by (simp add: inv_goal_def)
  next
    case False
    then have e: "tab_at (grid_put G (fst n) (snd n) v) t = tab_at G t" using G' [OF assms(3)] by simp
    show ?thesis unfolding inv_goal_def e fresh_cong [OF e]
      using assms(5) by (auto simp: inv_goal_def intro: fresh_append)
  qed
qed

lemma put_came:
  assumes "inv_tab s w h G C" "inb w h c" "n \<in> set (neighbours4 c)" "inb w h n"
    "tab_at G c + 5 < tab_at G n"
    and "inv_came s w h G C"
  shows "inv_came s w h (grid_put G (fst n) (snd n) (tab_at G c + 5)) (grid_put C (fst n) (snd n) c)"
proof -
  let ?v = "tab_at G c + 5"
  let ?G = "grid_put G (fst n) (snd n) ?v"
  let ?C = "grid_put C (fst n) (snd n) c"
  from assms(1) have wf: "wf_table G w h" "wf_table C w h" by (simp_all add: inv_tab_def)
  have n': "inb w h (fst n, snd n)" using assms(4) by simp
  have G': "tab_at ?G u = (if u = n then ?v else tab_at G u)" if "inb w h u" for u
    using tab_at_put [OF wf(1) n' that] by simp
  have C': "tab_at ?C u = (if u = n then c else tab_at C u)" if "inb w h u" for u
    using tab_at_put [OF wf(2) n' that] by simp
  have nc: "n \<noteq> c" using assms(3) by (rule neighbour_neq)
  have le: "tab_at ?G u \<le> tab_at G u" if "inb w h u" for u
    using G' [OF that] assms(5) by auto
  show ?thesis unfolding inv_came_def
  proof (intro allI impI)
    fix u assume u: "inb w h u" "u \<noteq> s" "tab_at ?G u < 999999"
    show "inb w h (tab_at ?C u) \<and> u \<in> set (neighbours4 (tab_at ?C u)) \<and>
          tab_at ?G (tab_at ?C u) + 5 \<le> tab_at ?G u"
    proof (cases "u = n")
      case True
      then have "tab_at ?C u = c" "tab_at ?G u = ?v" using C' [OF u(1)] G' [OF u(1)] by simp_all
      moreover have "tab_at ?G c = tab_at G c" using G' [OF assms(2)] nc by simp
      ultimately show ?thesis using assms(2,3) True by simp
    next
      case False
      then have e: "tab_at ?C u = tab_at C u" "tab_at ?G u = tab_at G u"
        using C' [OF u(1)] G' [OF u(1)] by simp_all
      with u have "tab_at G u < 999999" by simp
      note old = inv_cameD [OF assms(6) u(1,2) this]
      show ?thesis using old le [OF old(1)] e by simp
    qed
  qed
qed


definition astar_inv ::
  "int \<times> int \<Rightarrow> int \<times> int \<Rightarrow> int \<Rightarrow> int \<Rightarrow> int \<times> int \<Rightarrow> (int \<times> int) list
     \<Rightarrow> node list \<Rightarrow> int list list \<Rightarrow> (int \<times> int) list list \<Rightarrow> bool" where
  "astar_inv s t w h c ns q G C \<longleftrightarrow>
     inb w h t \<and> inb w h c \<and> set ns \<subseteq> set (neighbours4 c) \<and>
     inv_tab s w h G C \<and> inv_nodes t w h q G \<and> inv_exp w h c ns q G \<and> inv_goal t q G \<and>
     inv_came s w h G C"

lemma astar_invD:
  assumes "astar_inv s t w h c ns q G C"
  shows "inb w h t" "inb w h c" "set ns \<subseteq> set (neighbours4 c)"
     "inv_tab s w h G C" "inv_nodes t w h q G" "inv_exp w h c ns q G" "inv_goal t q G"
     "inv_came s w h G C"
  using assms unfolding astar_inv_def by blast+

lemma astar_invI:
  assumes "inb w h t" "inb w h c" "set ns \<subseteq> set (neighbours4 c)"
     "inv_tab s w h G C" "inv_nodes t w h q G" "inv_exp w h c ns q G" "inv_goal t q G"
     "inv_came s w h G C"
  shows "astar_inv s t w h c ns q G C"
  using assms unfolding astar_inv_def by blast

lemma relax_inv:
  assumes "astar_inv s t w h c (n # ns) q G C"
  shows "\<exists>q' G' C'. relax (void_grid w h) (fst t) (snd t) w h c n (Inr (q, G, C)) = Inr (q', G', C')
            \<and> astar_inv s t w h c ns q' G' C'"
proof -
  note I = astar_invD [OF assms]
  note wf = inv_tabD(1,2) [OF I(4)]
  from I(3) have n: "n \<in> set (neighbours4 c)" and ns: "set ns \<subseteq> set (neighbours4 c)" by simp_all
  note eq = relax_eq [OF wf I(2), of t n q]
  show ?thesis
  proof (cases "inb w h n \<and> tab_at G c + 5 < tab_at G n")
    case False
    then have "relax (void_grid w h) (fst t) (snd t) w h c n (Inr (q, G, C)) = Inr (q, G, C)"
      using eq by simp
    moreover have "astar_inv s t w h c ns q G C"
      using I(1,2) ns I(4,5) skip_exp [OF False I(6)] I(7,8) by (rule astar_invI)
    ultimately show ?thesis by blast
  next
    case True
    then have nb: "inb w h n" and lt: "tab_at G c + 5 < tab_at G n" by simp_all
    let ?v = "tab_at G c + 5"
    let ?q = "q @ [(fst n, snd n, ?v, manhattan n t, c)]"
    let ?G = "grid_put G (fst n) (snd n) ?v"
    let ?C = "grid_put C (fst n) (snd n) c"
    have "relax (void_grid w h) (fst t) (snd t) w h c n (Inr (q, G, C)) = Inr (?q, ?G, ?C)"
      using eq True by simp
    moreover have "astar_inv s t w h c ns ?q ?G ?C"
      using I(1,2) ns put_tab(1) [OF I(4,2) n nb lt]
        put_nodes [OF wf(1) nb lt inv_tabD(7) [OF I(4) nb] I(5)]
        put_exp [OF wf(1) I(2) n nb lt I(6)]
        put_goal [OF wf(1) nb I(1) lt I(7)]
        put_came [OF I(4,2) n nb lt I(8)]
      by (rule astar_invI)
    ultimately show ?thesis by blast
  qed
qed

lemma fold_relax_inv:
  "astar_inv s t w h c ns q G C \<Longrightarrow>
   \<exists>q' G' C'. fold (relax (void_grid w h) (fst t) (snd t) w h c) ns (Inr (q, G, C)) = Inr (q', G', C')
            \<and> astar_inv s t w h c [] q' G' C'"
proof (induction ns arbitrary: q G C)
  case Nil
  then show ?case by simp
next
  case (Cons n ns)
  from relax_inv [OF Cons.prems] obtain q1 G1 C1 where
    r: "relax (void_grid w h) (fst t) (snd t) w h c n (Inr (q, G, C)) = Inr (q1, G1, C1)"
    and i: "astar_inv s t w h c ns q1 G1 C1" by blast
  from Cons.IH [OF i] show ?case by (simp add: r)
qed

lemma in_rest:
  assumes "m \<in> set q" "m \<noteq> q ! i" "i < length q"
  shows "m \<in> set (take i q @ drop (Suc i) q)"
proof -
  have "set q = set (take i q @ q ! i # drop (Suc i) q)"
    using id_take_nth_drop [OF assms(3)] by simp
  also have "\<dots> = set (take i q) \<union> {q ! i} \<union> set (drop (Suc i) q)"
    by (simp only: set_append list.set) simp
  finally have "m \<in> set (take i q) \<union> {q ! i} \<union> set (drop (Suc i) q)" using assms(1) by simp
  with assms(2) show ?thesis by (simp only: set_append Un_iff) blast
qed

lemma rest_subset: "set (take i q @ drop (Suc i) q) \<subseteq> set q"
  using set_take_subset [of i q] set_drop_subset [of "Suc i" q] by auto

lemma fresh_rest:
  assumes "fresh q G u" "i < length q" "q ! i = (cx, cy, g, hh, p)" "u \<noteq> (cx, cy)"
  shows "fresh (take i q @ drop (Suc i) q) G u"
proof -
  from assms(1) obtain hh' p' where m: "(fst u, snd u, tab_at G u, hh', p') \<in> set q"
    unfolding fresh_def by blast
  have "(fst u, snd u, tab_at G u, hh', p') \<noteq> q ! i" using assms(3,4) by auto
  from in_rest [OF m this assms(2)] show ?thesis unfolding fresh_def by blast
qed

lemma pop_inv:
  assumes "astar_inv s t w h c0 [] q G C" "i < length q" "q ! i = (cx, cy, g, hh, p)"
    "(cx, cy) \<noteq> t"
  shows "astar_inv s t w h (cx, cy) (neighbours4 (cx, cy)) (take i q @ drop (Suc i) q) G C"
proof -
  note I = astar_invD [OF assms(1)]
  let ?r = "take i q @ drop (Suc i) q"
  have mem: "(cx, cy, g, hh, p) \<in> set q" using nth_mem [OF assms(2)] assms(3) by simp
  note nd = inv_nodesD [OF I(5) mem]
  have nodes: "inv_nodes t w h ?r G"
    using I(5) rest_subset [of i q] unfolding inv_nodes_def by blast
  have ex: "inv_exp w h (cx, cy) (neighbours4 (cx, cy)) ?r G"
    unfolding inv_exp_def
  proof (intro allI impI)
    fix u assume u: "inb w h u"
    show "fresh ?r G u \<or> (\<forall>u' \<in> set (neighbours4 u). inb w h u' \<longrightarrow>
           (u = (cx, cy) \<and> u' \<in> set (neighbours4 (cx, cy))) \<or> tab_at G u' \<le> tab_at G u + 5)"
    proof (cases "u = (cx, cy)")
      case True
      then show ?thesis by simp
    next
      case False
      from inv_expD [OF I(6) u] show ?thesis
      proof
        assume "fresh q G u"
        from fresh_rest [OF this assms(2,3) False] show ?thesis ..
      next
        assume "\<forall>u' \<in> set (neighbours4 u). inb w h u' \<longrightarrow>
           (u = c0 \<and> u' \<in> set []) \<or> tab_at G u' \<le> tab_at G u + 5"
        then show ?thesis by simp
      qed
    qed
  qed
  have goal: "inv_goal t ?r G"
    unfolding inv_goal_def
  proof
    assume "tab_at G t < 999999"
    with I(7) have "fresh q G t" by (simp add: inv_goal_def)
    from fresh_rest [OF this assms(2,3)] assms(4) show "fresh ?r G t" by simp
  qed
  show ?thesis using I(1) nd(1) subset_refl I(4) nodes ex goal I(8) by (rule astar_invI)
qed


lemma pred_cell:
  assumes "inb w h s" "inb w h u" "u \<noteq> s"
  shows "\<exists>p. inb w h p \<and> u \<in> set (neighbours4 p) \<and> manhattan s p = manhattan s u - 1"
proof -
  obtain sx sy ux uy where e: "s = (sx, sy)" "u = (ux, uy)" by (cases s, cases u)
  from assms(3) e consider "sx < ux" | "ux < sx" | "sy < uy" | "uy < sy" by fastforce
  then show ?thesis
  proof cases
    case 1
    then show ?thesis using assms(1,2) unfolding e
      by (intro exI [of _ "(ux - 1, uy)"]) (auto simp: inb_def neighbours4_def manhattan_def)
  next
    case 2
    then show ?thesis using assms(1,2) unfolding e
      by (intro exI [of _ "(ux + 1, uy)"]) (auto simp: inb_def neighbours4_def manhattan_def)
  next
    case 3
    then show ?thesis using assms(1,2) unfolding e
      by (intro exI [of _ "(ux, uy - 1)"]) (auto simp: inb_def neighbours4_def manhattan_def)
  next
    case 4
    then show ?thesis using assms(1,2) unfolding e
      by (intro exI [of _ "(ux, uy + 1)"]) (auto simp: inb_def neighbours4_def manhattan_def)
  qed
qed

lemma manhattan_zero: "manhattan a b = 0 \<longleftrightarrow> a = b"
  by (cases a, cases b) (auto simp: manhattan_def)

lemma node_f_eq [simp]: "node_f (x, y, g, hh, p) = g + hh"
  by (simp add: node_f_def)

text \<open>While the goal can be reached below the sentinel, the open set holds a node whose
  \<open>f\<close> is at most the optimum.\<close>

lemma open_node_below:
  assumes inv: "astar_inv s t w h c0 [] q G C" and small: "5 * manhattan s t < 999999"
  shows "\<exists>m \<in> set q. node_f m \<le> 5 * manhattan s t"
proof (rule ccontr)
  assume "\<not> (\<exists>m \<in> set q. node_f m \<le> 5 * manhattan s t)"
  then have none: "\<And>m. m \<in> set q \<Longrightarrow> 5 * manhattan s t < node_f m" by force
  note I = astar_invD [OF inv]
  note T = inv_tabD [OF I(4)]
  let ?D = "manhattan s t"
  have nofresh: "\<not> fresh q G u"
    if u: "inb w h u" "tab_at G u = 5 * manhattan s u" "manhattan s u + manhattan u t = ?D" for u
  proof
    assume "fresh q G u"
    then obtain hh p where m: "(fst u, snd u, tab_at G u, hh, p) \<in> set q"
      unfolding fresh_def by blast
    from inv_nodesD(4) [OF I(5) m] have "hh = manhattan u t" by simp
    with none [OF m] u(2,3) have "5 * ?D < 5 * manhattan s u + manhattan u t" by simp
    moreover have "0 \<le> manhattan u t" "0 \<le> manhattan s u" by simp_all
    ultimately show False using u(3) by linarith
  qed
  have opt: "tab_at G u = 5 * manhattan s u"
    if "inb w h u" "manhattan s u + manhattan u t = ?D" "nat (manhattan s u) = k" for u k
    using that
  proof (induction k arbitrary: u)
    case 0
    then have "manhattan s u = 0" using manhattan_nonneg [of s u] by linarith
    then have "u = s" by (simp add: manhattan_zero)
    then show ?case using T(4) by (simp add: manhattan_def)
  next
    case (Suc k)
    then have "u \<noteq> s" by (auto simp: manhattan_def)
    from pred_cell [OF T(3) Suc.prems(1) this] obtain p where
      p: "inb w h p" "u \<in> set (neighbours4 p)" "manhattan s p = manhattan s u - 1" by blast
    have "manhattan p t \<le> manhattan p u + manhattan u t" by (rule manhattan_triangle)
    moreover have "manhattan p u = 1" using p(2) by (rule neighbour_manhattan)
    moreover have "?D \<le> manhattan s p + manhattan p t" by (rule manhattan_triangle)
    ultimately have sum: "manhattan s p + manhattan p t = ?D" using p(3) Suc.prems(2) by linarith
    have "nat (manhattan s p) = k" using p(3) Suc.prems(3) by linarith
    from Suc.IH [OF p(1) sum this] have Gp: "tab_at G p = 5 * manhattan s p" .
    from inv_expD [OF I(6) p(1)] nofresh [OF p(1) Gp sum]
    have "\<forall>u' \<in> set (neighbours4 p). inb w h u' \<longrightarrow>
           (p = c0 \<and> u' \<in> set []) \<or> tab_at G u' \<le> tab_at G p + 5" by blast
    with p(2) Suc.prems(1) have "tab_at G u \<le> tab_at G p + 5" by auto
    then have le: "tab_at G u \<le> 5 * manhattan s u" using Gp p(3) by simp
    have "manhattan s u \<le> ?D" using Suc.prems(2) manhattan_nonneg [of u t] by linarith
    then have "min (5 * manhattan s u) 999999 = 5 * manhattan s u" using small by simp
    with T(6) [OF Suc.prems(1)] le show ?case by simp
  qed
  have tt: "manhattan t t = 0" by (simp add: manhattan_def)
  have Gt: "tab_at G t = 5 * ?D" using opt [OF I(1) _ refl] tt by simp
  with small I(7) have "fresh q G t" by (simp add: inv_goal_def)
  moreover have "\<not> fresh q G t" using nofresh [OF I(1) Gt] tt by simp
  ultimately show False by simp
qed

lemma goal_popped:
  assumes inv: "astar_inv s t w h c0 [] q G C" and small: "5 * manhattan s t < 999999"
    and top: "q ! pq_top L q = (fst t, snd t, g, hh, p)"
  shows "tab_at G t = 5 * manhattan s t"
proof -
  note I = astar_invD [OF inv]
  note T = inv_tabD [OF I(4)]
  from open_node_below [OF inv small] obtain m where m: "m \<in> set q" "node_f m \<le> 5 * manhattan s t"
    by blast
  then have ne: "q \<noteq> []" by auto
  from pq_top_min [OF ne m(1), of L] m(2) top have f: "g + hh \<le> 5 * manhattan s t" by simp
  have "pq_top L q < length q" using ne by (rule pq_top_lt)
  from nth_mem [OF this] top have mem: "(fst t, snd t, g, hh, p) \<in> set q" by simp
  from inv_nodesD [OF I(5) mem] have "tab_at G t \<le> g" "hh = manhattan t t" by simp_all
  then have "tab_at G t \<le> 5 * manhattan s t" using f by (simp add: manhattan_def)
  moreover have "min (5 * manhattan s t) 999999 \<le> tab_at G t" using T(6) [OF I(1)] .
  ultimately show ?thesis using small by simp
qed

lemma length_concat_wf: "wf_table T w h \<Longrightarrow> length (concat T) = nat h * nat w"
proof -
  have "\<forall>row \<in> set T. length row = n \<Longrightarrow> length (concat T) = length T * n" for n
    by (induction T) simp_all
  then show "wf_table T w h \<Longrightarrow> length (concat T) = nat h * nat w"
    by (simp add: wf_table_def)
qed

text \<open>The reconstruction loop from a cell with an optimal score walks back to the start in
  as many steps as the distance, within the fuel.\<close>

lemma trace_back_chain:
  assumes "inv_tab s w h G C" "inv_came s w h G C"
  shows "inb w h u \<Longrightarrow> tab_at G u = 5 * manhattan s u \<Longrightarrow> tab_at G u < 999999 \<Longrightarrow>
     nat (manhattan s u) = k \<Longrightarrow> k + 2 \<le> fuel \<Longrightarrow>
     \<exists>chain. trace_back fuel C (fst u) (snd u) path = Inr (chain @ path) \<and>
        length chain = k + 1 \<and> hd chain = s \<and> last chain = u"
proof (induction k arbitrary: u fuel path)
  case 0
  note T = inv_tabD [OF assms(1)]
  from 0 have "manhattan s u = 0" using manhattan_nonneg [of s u] by linarith
  then have u: "u = s" by (simp add: manhattan_zero)
  from 0(5) obtain f where f: "fuel = Suc (Suc f)" by (cases fuel; simp; rename_tac n; case_tac n; simp)
  have ig: "in_grid C (fst s) (snd s)" using in_grid_wf [OF T(2), of "fst s" "snd s"] T(3) by simp
  have nz: "fst s \<noteq> -1" using T(3) by (auto simp: inb_def)
  have "grid_at C (fst s) (snd s) = (-1, -1)" using T(5) by (simp add: tab_at_def)
  then have "trace_back fuel C (fst u) (snd u) path = Inr ([s] @ path)"
    unfolding f u using ig nz by simp
  then show ?case using u by auto
next
  case (Suc k)
  note T = inv_tabD [OF assms(1)]
  from Suc.prems(4) have us: "u \<noteq> s" by (auto simp: manhattan_def)
  note cf = inv_cameD [OF assms(2) Suc.prems(1) us Suc.prems(3)]
  let ?p = "tab_at C u"
  have "manhattan s u \<le> manhattan s ?p + 1" using cf(2) by (rule manhattan_step)
  moreover have "tab_at G ?p < 999999" using cf(3) Suc.prems(3) by linarith
  moreover note T(6) [OF cf(1)]
  ultimately have Gp: "tab_at G ?p = 5 * manhattan s ?p" and mp: "manhattan s ?p = manhattan s u - 1"
    using cf(3) Suc.prems(2) by linarith+
  have k: "nat (manhattan s ?p) = k" using mp Suc.prems(4) by linarith
  from Suc.prems(5) obtain f where f: "fuel = Suc f" "k + 2 \<le> f" by (cases fuel) simp_all
  from Suc.IH [OF cf(1) Gp \<open>tab_at G ?p < 999999\<close> k f(2), of "u # path"]
  obtain chain where ch: "trace_back f C (fst ?p) (snd ?p) (u # path) = Inr (chain @ u # path)"
    "length chain = k + 1" "hd chain = s" "last chain = ?p" by blast
  have ig: "in_grid C (fst u) (snd u)" using in_grid_wf [OF T(2), of "fst u" "snd u"] Suc.prems(1) by simp
  have nz: "fst u \<noteq> -1" using Suc.prems(1) by (auto simp: inb_def)
  have "trace_back fuel C (fst u) (snd u) path = trace_back f C (fst ?p) (snd ?p) (u # path)"
    unfolding f(1) using ig nz by (simp add: tab_at_def case_prod_unfold)
  then have "trace_back fuel C (fst u) (snd u) path = Inr ((chain @ [u]) @ path)"
    using ch(1) by simp
  moreover have "length (chain @ [u]) = Suc k + 1" using ch(2) by simp
  moreover have "hd (chain @ [u]) = s" using ch(2,3) by (cases chain) simp_all
  moreover have "last (chain @ [u]) = u" by simp
  ultimately show ?case by blast
qed

lemma fuel_enough:
  assumes "inb w h s" "inb w h t" "wf_table C w h"
  shows "nat (manhattan s t) + 2 \<le> length (concat C) + 1"
proof -
  have "manhattan s t \<le> (w - 1) + (h - 1)" using assms(1,2)
    by (cases s, cases t) (auto simp: inb_def manhattan_def)
  moreover have "0 < w" "0 < h" using assms(1) by (auto simp: inb_def)
  then have "0 \<le> (w - 1) * (h - 1)" by simp
  then have "w + h - 1 \<le> w * h" by (simp add: algebra_simps)
  moreover have "int (length (concat C)) = w * h"
    using \<open>0 < w\<close> \<open>0 < h\<close> length_concat_wf [OF assms(3)] by (simp add: mult.commute)
  ultimately have "manhattan s t + 1 \<le> int (length (concat C))" by linarith
  then show ?thesis using manhattan_nonneg [of s t] by linarith
qed


lemma astar_loop_step:
  assumes inv: "astar_inv s t w h c0 [] q G C" and ne: "q \<noteq> []"
    and top: "q ! pq_top L q = (cx, cy, g, hh, p)" and c: "(cx, cy) \<noteq> t"
  shows "\<exists>q' G' C' c'. astar_inv s t w h c' [] q' G' C' \<and>
           2 * gsum G' + length q' < 2 * gsum G + length q \<and>
           astar_loop L (void_grid w h) (fst t) (snd t) w h q G C =
           astar_loop L (void_grid w h) (fst t) (snd t) w h q' G' C'"
proof -
  let ?i = "pq_top L q"
  let ?r = "take ?i q @ drop (Suc ?i) q"
  have i: "?i < length q" using ne by (rule pq_top_lt)
  from pop_inv [OF inv i top c]
  have "astar_inv s t w h (cx, cy) (neighbours4 (cx, cy)) ?r G C" .
  from fold_relax_inv [OF this] obtain q' G' C' where
    f: "fold (relax (void_grid w h) (fst t) (snd t) w h (cx, cy)) (neighbours4 (cx, cy)) (Inr (?r, G, C))
          = Inr (q', G', C')"
    and inv': "astar_inv s t w h (cx, cy) [] q' G' C'" by blast
  have "length ?r < length q" using i by simp
  with fold_relax_measure [OF f] have m: "2 * gsum G' + length q' < 2 * gsum G + length q" by linarith
  have nc: "\<not> (cx = fst t \<and> cy = snd t)" using c by auto
  have "astar_loop L (void_grid w h) (fst t) (snd t) w h q G C =
        astar_loop L (void_grid w h) (fst t) (snd t) w h q' G' C'"
    by (subst astar_loop.simps) (simp add: ne Let_def top nc f)
  with inv' m show ?thesis by blast
qed

lemma astar_loop_correct:
  assumes "astar_inv s t w h c0 [] q G C" and small: "5 * manhattan s t < 999999"
  shows "\<exists>path G'. astar_loop L (void_grid w h) (fst t) (snd t) w h q G C = Inr (path, G') \<and>
           tab_at G' t = 5 * manhattan s t \<and> length path = nat (manhattan s t) + 1 \<and>
           hd path = s \<and> last path = t"
  using assms(1)
proof (induction "2 * gsum G + length q" arbitrary: q G C c0 rule: less_induct)
  case less
  note I = astar_invD [OF less.prems]
  note T = inv_tabD [OF I(4)]
  from open_node_below [OF less.prems small] have ne: "q \<noteq> []" by auto
  obtain cx cy g hh p where top: "q ! pq_top L q = (cx, cy, g, hh, p)"
    by (metis prod_cases5)
  show ?case
  proof (cases "(cx, cy) = t")
    case True
    then have top': "q ! pq_top L q = (fst t, snd t, g, hh, p)" using top by auto
    from goal_popped [OF less.prems small top'] have Gt: "tab_at G t = 5 * manhattan s t" .
    then have lt: "tab_at G t < 999999" using small by simp
    from trace_back_chain [OF I(4,8) I(1) Gt lt refl fuel_enough [OF T(3) I(1) T(2)], of "[]"]
    obtain chain where ch: "trace_back (length (concat C) + 1) C (fst t) (snd t) [] = Inr chain"
      "length chain = nat (manhattan s t) + 1" "hd chain = s" "last chain = t" by auto
    have ch': "trace_back (Suc (length (concat C))) C (fst t) (snd t) [] = Inr chain"
      using ch(1) by (simp del: trace_back.simps)
    have "astar_loop L (void_grid w h) (fst t) (snd t) w h q G C = Inr (chain, G)"
      by (subst astar_loop.simps) (simp add: ne Let_def top' ch' del: trace_back.simps)
    with Gt ch(2,3,4) show ?thesis by blast
  next
    case False
    from astar_loop_step [OF less.prems ne top False] obtain q' G' C' c' where
      s: "astar_inv s t w h c' [] q' G' C'" "2 * gsum G' + length q' < 2 * gsum G + length q"
      "astar_loop L (void_grid w h) (fst t) (snd t) w h q G C =
       astar_loop L (void_grid w h) (fst t) (snd t) w h q' G' C'" by blast
    from less.hyps [OF s(2) s(1)] s(3) show ?thesis by simp
  qed
qed

lemma astar_loop_sentinel:
  assumes "astar_inv s t w h c0 [] q G C" and far: "999999 \<le> 5 * manhattan s t"
  shows "\<exists>G'. astar_loop L (void_grid w h) (fst t) (snd t) w h q G C = Inr ([], G')"
  using assms(1)
proof (induction "2 * gsum G + length q" arbitrary: q G C c0 rule: less_induct)
  case less
  note I = astar_invD [OF less.prems]
  note T = inv_tabD [OF I(4)]
  show ?case
  proof (cases "q = []")
    case True
    then show ?thesis by (subst astar_loop.simps) simp
  next
    case ne: False
    obtain cx cy g hh p where top: "q ! pq_top L q = (cx, cy, g, hh, p)"
      by (metis prod_cases5)
    have "pq_top L q < length q" using ne by (rule pq_top_lt)
    from nth_mem [OF this] top have mem: "(cx, cy, g, hh, p) \<in> set q" by simp
    from inv_nodesD(3) [OF I(5) mem] have "tab_at G (cx, cy) < 999999" .
    moreover have "999999 \<le> tab_at G t" using T(6) [OF I(1)] far by simp
    ultimately have c: "(cx, cy) \<noteq> t" by auto
    from astar_loop_step [OF less.prems ne top c] obtain q' G' C' c' where
      s: "astar_inv s t w h c' [] q' G' C'" "2 * gsum G' + length q' < 2 * gsum G + length q"
      "astar_loop L (void_grid w h) (fst t) (snd t) w h q G C =
       astar_loop L (void_grid w h) (fst t) (snd t) w h q' G' C'" by blast
    from less.hyps [OF s(2) s(1)] s(3) show ?thesis by simp
  qed
qed

lemma astar_init:
  assumes s: "inb w h s" and t: "inb w h t"
  shows "astar_inv s t w h s [] [(fst s, snd s, 0, manhattan s t, (-1, -1))]
           (grid_put (replicate (nat h) (replicate (nat w) 999999)) (fst s) (snd s) 0)
           (replicate (nat h) (replicate (nat w) (-1, -1)))"
proof -
  let ?Z = "replicate (nat h) (replicate (nat w) (999999 :: int))"
  let ?G = "grid_put ?Z (fst s) (snd s) 0"
  let ?C = "replicate (nat h) (replicate (nat w) (-1 :: int, -1 :: int))"
  let ?q = "[(fst s, snd s, 0 :: int, manhattan s t, (-1 :: int, -1 :: int))]"
  have s': "inb w h (fst s, snd s)" using s by simp
  have wfG: "wf_table ?G w h" by (intro wf_table_put wf_table_replicate)
  have wfC: "wf_table ?C w h" by (rule wf_table_replicate)
  have G: "tab_at ?G u = (if u = s then 0 else 999999)" if "inb w h u" for u
    using tab_at_put [where T = ?Z and v = 0, OF wf_table_replicate s' that]
      tab_at_replicate [where v = "999999 :: int", OF that]
    by simp
  have Cs: "tab_at ?C s = (-1, -1)" using s by (rule tab_at_replicate)
  have fs: "fresh ?q ?G s" unfolding fresh_def using G [OF s] by simp
  have tab: "inv_tab s w h ?G ?C"
    unfolding inv_tab_def
  proof (intro conjI allI impI)
    fix u assume u: "inb w h u"
    show "min (5 * manhattan s u) 999999 \<le> tab_at ?G u"
      using G [OF u] by (auto simp: manhattan_def)
    show "tab_at ?G u \<le> 999999" using G [OF u] by simp
  qed (use wfG wfC s G [OF s] Cs in simp_all)
  have nodes: "inv_nodes t w h ?q ?G" unfolding inv_nodes_def using s G [OF s] by simp
  have ex: "inv_exp w h s [] ?q ?G"
    unfolding inv_exp_def
  proof (intro allI impI)
    fix u assume u: "inb w h u"
    show "fresh ?q ?G u \<or> (\<forall>u' \<in> set (neighbours4 u). inb w h u' \<longrightarrow>
            (u = s \<and> u' \<in> set []) \<or> tab_at ?G u' \<le> tab_at ?G u + 5)"
    proof (cases "u = s")
      case True
      then show ?thesis using fs by simp
    next
      case False
      have "tab_at ?G u' \<le> tab_at ?G u + 5" if "inb w h u'" for u'
        using G [OF u] G [OF that] False by simp
      then show ?thesis by blast
    qed
  qed
  have goal: "inv_goal t ?q ?G"
    unfolding inv_goal_def
  proof
    assume "tab_at ?G t < 999999"
    then have "t = s" using G [OF t] by (simp split: if_splits)
    then show "fresh ?q ?G t" using fs by simp
  qed
  have came: "inv_came s w h ?G ?C"
    unfolding inv_came_def using G by simp
  show ?thesis using t s _ tab nodes ex goal came by (rule astar_invI) simp
qed

lemma astar_void:
  assumes s: "inb w h (x1, y1)" and t: "inb w h (x2, y2)"
  shows "astar L (void_grid w h) x1 y1 x2 y2 w h =
     astar_loop L (void_grid w h) x2 y2 w h [(x1, y1, 0, manhattan (x1, y1) (x2, y2), (-1, -1))]
       (grid_put (replicate (nat h) (replicate (nat w) 999999)) x1 y1 0)
       (replicate (nat h) (replicate (nat w) (-1, -1)))"
proof -
  have "in_grid (replicate (nat h) (replicate (nat w) (999999 :: int))) x1 y1"
    using in_grid_wf [where T = "replicate (nat h) (replicate (nat w) (999999 :: int))"
        and x = x1 and y = y1, OF wf_table_replicate] s by simp
  moreover have "\<not> (w < 0 \<or> h < 0)" using s by (auto simp: inb_def)
  ultimately show ?thesis by (simp add: astar_def Let_def manhattan_def)
qed


text \<open>The initial value 999999 of \<open>gScore\<close> stands for "not reached", and the test
  \<^verbatim>\<open>tentative_g < gScore[ny][nx]\<close> never lowers a score to 999999 or more. A goal whose
  optimal cost is not below 999999 is therefore never pushed: the open set runs empty
  and the search returns the empty path.\<close>

lemma sentinel_blocks_far_goal:
  assumes "0 \<le> x1" "x1 < width" "0 \<le> y1" "y1 < height"
    and "0 \<le> x2" "x2 < width" "0 \<le> y2" "y2 < height"
    and far: "999999 \<le> 5 * (\<bar>x2 - x1\<bar> + \<bar>y2 - y1\<bar>)"
  shows "findShortestPath L (void_grid width height) x1 y1 x2 y2 width height = Inr []"
proof -
  have s: "inb width height (x1, y1)" and t: "inb width height (x2, y2)"
    using assms by (simp_all add: inb_def)
  have far': "999999 \<le> 5 * manhattan (x1, y1) (x2, y2)" using far by (simp add: manhattan_def)
  from astar_loop_sentinel [OF astar_init [OF s t] far', of L]
  show ?thesis by (auto simp: findShortestPath_def astar_void [OF s t])
qed

text \<open>
  Claim C6 says that on every all-void grid, for every start and goal inside it,
  \<open>findShortestPath\<close> returns a path whose cost (the g-score of the goal) is 5 times the
  Manhattan distance, with distance + 1 coordinates, from the start to the goal.

  As stated it fails for a goal at distance 200000 or more: on the grid of width 200001
  and height 1, from \<open>(0, 0)\<close> to \<open>(200000, 0)\<close>, the scores along the row are
  \<open>0, 5, \<dots>, 999995\<close>, the step to the goal would cost 1000000, which is not below the
  initial 999999, and the search returns the empty path.
\<close>

theorem far_goal_gets_no_path:
  "findShortestPath test_lib (void_grid 200001 1) 0 0 200000 0 200001 1 = Inr []"
  by (rule sentinel_blocks_far_goal) simp_all

text \<open>
  Claim C6, amended: on the all-void grid of a width and height, for every start and
  goal inside it with 5 times their Manhattan distance below 999999,
  \<open>findShortestPath\<close> returns (it raises no error and its loops end) a path with
  distance + 1 coordinates, the first the start and the last the goal, and the g-score
  of the goal is then 5 times the distance; for every order in which the priority queue
  pops nodes of equal \<open>f\<close>.
\<close>

theorem shortest_path_on_void_grid:
  assumes "0 \<le> x1" "x1 < width" "0 \<le> y1" "y1 < height"
    and "0 \<le> x2" "x2 < width" "0 \<le> y2" "y2 < height"
    and small: "5 * (\<bar>x2 - x1\<bar> + \<bar>y2 - y1\<bar>) < 999999"
  shows "\<exists>path gScore.
     astar L (void_grid width height) x1 y1 x2 y2 width height = Inr (path, gScore) \<and>
     findShortestPath L (void_grid width height) x1 y1 x2 y2 width height = Inr path \<and>
     grid_at gScore x2 y2 = 5 * (\<bar>x2 - x1\<bar> + \<bar>y2 - y1\<bar>) \<and>
     int (length path) = \<bar>x2 - x1\<bar> + \<bar>y2 - y1\<bar> + 1 \<and>
     hd path = (x1, y1) \<and> last path = (x2, y2)"
proof -
  have s: "inb width height (x1, y1)" and t: "inb width height (x2, y2)"
    using assms by (simp_all add: inb_def)
  have m: "manhattan (x1, y1) (x2, y2) = \<bar>x2 - x1\<bar> + \<bar>y2 - y1\<bar>" by (simp add: manhattan_def)
  have small': "5 * manhattan (x1, y1) (x2, y2) < 999999" using small by (simp add: m)
  from astar_loop_correct [OF astar_init [OF s t] small', of L]
  obtain path G where r:
    "astar_loop L (void_grid width height) x2 y2 width height
       [(x1, y1, 0, manhattan (x1, y1) (x2, y2), (-1, -1))]
       (grid_put (replicate (nat height) (replicate (nat width) 999999)) x1 y1 0)
       (replicate (nat height) (replicate (nat width) (-1, -1))) = Inr (path, G)"
    "tab_at G (x2, y2) = 5 * manhattan (x1, y1) (x2, y2)"
    "length path = nat (manhattan (x1, y1) (x2, y2)) + 1"
    "hd path = (x1, y1)" "last path = (x2, y2)" by auto
  have a: "astar L (void_grid width height) x1 y1 x2 y2 width height = Inr (path, G)"
    using r(1) by (simp add: astar_void [OF s t])
  then have f: "findShortestPath L (void_grid width height) x1 y1 x2 y2 width height = Inr path"
    by (simp add: findShortestPath_def)
  have g: "grid_at G x2 y2 = 5 * (\<bar>x2 - x1\<bar> + \<bar>y2 - y1\<bar>)" using r(2) by (simp add: tab_at_def m)
  have l: "int (length path) = \<bar>x2 - x1\<bar> + \<bar>y2 - y1\<bar> + 1" using r(3) by (simp add: m)
  from a f g l r(4,5) show ?thesis by blast
qed

theorem shortest_path_on_void_grid_witness:
  "\<exists>path gScore.
     astar test_lib (void_grid 3 2) 0 0 2 1 3 2 = Inr (path, gScore) \<and>
     findShortestPath test_lib (void_grid 3 2) 0 0 2 1 3 2 = Inr path \<and>
     grid_at gScore 2 1 = 15 \<and> length path = 4 \<and> hd path = (0, 0) \<and> last path = (2, 1)"
  using shortest_path_on_void_grid [of 0 3 0 2 2 1 test_lib] by simp

subsection \<open>The range of the noise\<close>

text \<open>A sample of \<open>noise\<close> is 70 times the sum of three corner terms
  \<open>max(0, 1/2 - x\<^sup>2 - y\<^sup>2)\<^sup>4 \<cdot> (g \<cdot> (x, y))\<close>, where \<open>(x, y)\<close> is the offset of the
  sample from a corner of its simplex and \<open>g\<close> one of the twelve gradients, each with
  \<open>|g \<cdot> (x, y)| \<le> |x| + |y|\<close>. The bound \<open>|noise| \<le> 1\<close> is
  the inequality \<open>Gsum \<le> 1 / 70\<close> below. At the middle of the edge between the first
  and the last corner the sum is \<open>2 / (81 \<cdot> sqrt 3)\<close>, within 0.3 per cent of
  \<open>1 / 70\<close>, so the inequality is proved by an estimate along that edge and by a
  subdivision of the rest of the cell.\<close>

text \<open>The kernel \<open>max(0, t)\<^sup>4\<close> of a corner.\<close>

definition q4 :: "real \<Rightarrow> real" where
  "q4 t = (max 0 t) ^ 4"

lemma q4_nonneg [simp]: "0 \<le> q4 t"
  by (simp add: q4_def)

lemma q4_mono: "s \<le> t \<Longrightarrow> q4 s \<le> q4 t"
  unfolding q4_def by (intro power_mono) auto

lemma q4_le_power: "q4 t \<le> t ^ 4"
proof (cases "0 \<le> t")
  case True
  then show ?thesis by (simp add: q4_def max_def)
next
  case False
  then have "q4 t = 0" by (simp add: q4_def max_def)
  moreover have "0 \<le> t ^ 4" by simp
  ultimately show ?thesis by simp
qed

lemma q4_le: "0 \<le> s \<Longrightarrow> t \<le> s \<Longrightarrow> q4 t \<le> s ^ 4"
  using q4_mono [of t s] by (simp add: q4_def max_def)

text \<open>The sum of the three corner bounds in the coordinates \<open>a = u + v\<close> and
  \<open>e = |u - v|\<close> of the skewed cell; \<open>r\<close> stands for \<open>1 / sqrt 3\<close>.\<close>

definition Gsum :: "real \<Rightarrow> real \<Rightarrow> real \<Rightarrow> real" where
  "Gsum r a e =
     q4 (1 / 2 - a\<^sup>2 / 6 - e\<^sup>2 / 2) * max (a * r) e
   + q4 (1 / 2 - (a - 1)\<^sup>2 / 6 - (1 - e)\<^sup>2 / 2) * max (\<bar>a - 1\<bar> * r) (1 - e)
   + q4 (1 / 2 - (2 - a)\<^sup>2 / 6 - e\<^sup>2 / 2) * max ((2 - a) * r) e"

lemma Gsum_sym: "Gsum r (2 - a) e = Gsum r a e"
proof -
  have "(2 - a - 1)\<^sup>2 = (a - 1)\<^sup>2" by (simp add: power2_eq_square algebra_simps)
  moreover have "\<bar>2 - a - 1\<bar> = \<bar>a - 1\<bar>" by simp
  ultimately show ?thesis by (simp add: Gsum_def)
qed

text \<open>On the edge between the first and the last corner the two kernels add up to a
  polynomial in \<open>z = 1 - a\<close> with its maximum \<open>2 / 81\<close> at the middle.\<close>

lemma edge_identity:
  fixes z :: real
  shows "(1 / 2 - (1 - z)\<^sup>2 / 6) ^ 4 * (1 - z) + (1 / 2 - (1 + z)\<^sup>2 / 6) ^ 4 * (1 + z) =
         2 / 81 - z ^ 4 * (48 - 18 * z ^ 4) / 1296"
proof -
  have a: "1 / 2 - (1 - z)\<^sup>2 / 6 = (2 + 2 * z - z * z) / 6"
    by (simp add: power2_eq_square field_simps)
  have b: "1 / 2 - (1 + z)\<^sup>2 / 6 = (2 - 2 * z - z * z) / 6"
    by (simp add: power2_eq_square field_simps)
  have c: "(2 + 2 * z - z * z) ^ 4 * (1 - z) + (2 - 2 * z - z * z) ^ 4 * (1 + z)
       = 32 - z ^ 4 * (48 - 18 * z ^ 4)"
    by (simp add: power4_eq_xxxx algebra_simps)
  have "((2 + 2 * z - z * z) / 6) ^ 4 * (1 - z) + ((2 - 2 * z - z * z) / 6) ^ 4 * (1 + z)
      = ((2 + 2 * z - z * z) ^ 4 * (1 - z) + (2 - 2 * z - z * z) ^ 4 * (1 + z)) / 1296"
    by (simp add: power_divide add_divide_distrib)
  then show ?thesis unfolding a b c by (simp add: diff_divide_distrib)
qed


lemma inv_sqrt3_bounds:
  fixes r :: real
  assumes "0 \<le> r" "3 * r\<^sup>2 = 1"
  shows "1 / 2 \<le> r" "r \<le> 231 / 400"
proof -
  have r2: "r\<^sup>2 = 1 / 3" using assms(2) by simp
  show "1 / 2 \<le> r"
  proof (rule power2_le_imp_le)
    show "(1 / 2 :: real)\<^sup>2 \<le> r\<^sup>2" unfolding r2 by (simp add: power2_eq_square)
    show "0 \<le> r" by (rule assms(1))
  qed
  show "r \<le> 231 / 400"
  proof (rule power2_le_imp_le)
    show "r\<^sup>2 \<le> (231 / 400 :: real)\<^sup>2" unfolding r2 by (simp add: power2_eq_square)
    show "0 \<le> (231 / 400 :: real)" by simp
  qed
qed

text \<open>Near the edge: \<open>e \<le> 1 / 16\<close> and \<open>1 / 8 \<le> a \<le> 1\<close>.\<close>

lemma Gsum_strip:
  fixes r a e :: real
  assumes r: "0 \<le> r" "3 * r\<^sup>2 = 1"
    and a: "1 / 8 \<le> a" "a \<le> 1"
    and e: "0 \<le> e" "e \<le> 1 / 16"
  shows "Gsum r a e \<le> 1 / 70"
proof -
  note rb = inv_sqrt3_bounds [OF r]
  define z where "z = 1 - a"
  have z: "0 \<le> z" "z \<le> 1" using a by (simp_all add: z_def)
  have az: "a = 1 - z" "2 - a = 1 + z" by (simp_all add: z_def)
  have "1 / 16 \<le> a * (1 / 2)" using a by simp
  also have "\<dots> \<le> a * r" using a rb by (intro mult_left_mono) simp_all
  finally have ear: "e \<le> a * r" using e by simp
  have "a * r \<le> (2 - a) * r" using a r by (intro mult_right_mono) simp_all
  with ear have ecr: "e \<le> (2 - a) * r" by simp
  have mA: "max (a * r) e = a * r" using ear by (simp add: max_def)
  have mC: "max ((2 - a) * r) e = (2 - a) * r" using ecr by (simp add: max_def)
  have e2: "0 \<le> e\<^sup>2 / 2" by simp
  have "q4 (1 / 2 - a\<^sup>2 / 6 - e\<^sup>2 / 2) \<le> q4 (1 / 2 - a\<^sup>2 / 6)"
    by (rule q4_mono) (use e2 in simp)
  also have "\<dots> \<le> (1 / 2 - a\<^sup>2 / 6) ^ 4" by (rule q4_le_power)
  finally have "q4 (1 / 2 - a\<^sup>2 / 6 - e\<^sup>2 / 2) * (a * r) \<le> (1 / 2 - a\<^sup>2 / 6) ^ 4 * (a * r)"
    using a r by (intro mult_right_mono) simp_all
  then have A: "q4 (1 / 2 - a\<^sup>2 / 6 - e\<^sup>2 / 2) * max (a * r) e
      \<le> ((1 / 2 - (1 - z)\<^sup>2 / 6) ^ 4 * (1 - z)) * r"
    unfolding mA by (simp add: az mult.assoc)
  have "q4 (1 / 2 - (2 - a)\<^sup>2 / 6 - e\<^sup>2 / 2) \<le> q4 (1 / 2 - (2 - a)\<^sup>2 / 6)"
    by (rule q4_mono) (use e2 in simp)
  also have "\<dots> \<le> (1 / 2 - (2 - a)\<^sup>2 / 6) ^ 4" by (rule q4_le_power)
  finally have "q4 (1 / 2 - (2 - a)\<^sup>2 / 6 - e\<^sup>2 / 2) * ((2 - a) * r)
      \<le> (1 / 2 - (2 - a)\<^sup>2 / 6) ^ 4 * ((2 - a) * r)"
    using a r by (intro mult_right_mono) simp_all
  then have C: "q4 (1 / 2 - (2 - a)\<^sup>2 / 6 - e\<^sup>2 / 2) * max ((2 - a) * r) e
      \<le> ((1 / 2 - (1 + z)\<^sup>2 / 6) ^ 4 * (1 + z)) * r"
    unfolding mC by (simp add: az mult.assoc)
  have "z ^ 4 \<le> 1" using z by (simp add: power_le_one)
  then have "0 \<le> z ^ 4 * (48 - 18 * z ^ 4)" by (intro mult_nonneg_nonneg) simp_all
  then have "(1 / 2 - (1 - z)\<^sup>2 / 6) ^ 4 * (1 - z) + (1 / 2 - (1 + z)\<^sup>2 / 6) ^ 4 * (1 + z) \<le> 2 / 81"
    unfolding edge_identity by simp
  then have "((1 / 2 - (1 - z)\<^sup>2 / 6) ^ 4 * (1 - z) + (1 / 2 - (1 + z)\<^sup>2 / 6) ^ 4 * (1 + z)) * r
      \<le> 2 / 81 * r"
    using r by (intro mult_right_mono) simp_all
  also have "\<dots> \<le> 2 / 81 * (231 / 400)" using rb by simp
  finally have AC: "((1 / 2 - (1 - z)\<^sup>2 / 6) ^ 4 * (1 - z)) * r
      + ((1 / 2 - (1 + z)\<^sup>2 / 6) ^ 4 * (1 + z)) * r \<le> 2 / 81 * (231 / 400)"
    by (simp add: distrib_right)
  have "1 / 2 - (1 - e)\<^sup>2 / 2 = e - e\<^sup>2 / 2" by (simp add: power2_eq_square field_simps)
  moreover have "0 \<le> (a - 1)\<^sup>2 / 6" by simp
  ultimately have "1 / 2 - (a - 1)\<^sup>2 / 6 - (1 - e)\<^sup>2 / 2 \<le> e" using e2 by linarith
  with e have "q4 (1 / 2 - (a - 1)\<^sup>2 / 6 - (1 - e)\<^sup>2 / 2) \<le> e ^ 4" by (intro q4_le)
  also have "\<dots> \<le> (1 / 16) ^ 4" using e by (intro power_mono) simp_all
  also have "\<dots> = 1 / 65536" by (simp add: power_divide)
  finally have qB: "q4 (1 / 2 - (a - 1)\<^sup>2 / 6 - (1 - e)\<^sup>2 / 2) \<le> 1 / 65536" .
  have "\<bar>a - 1\<bar> * r \<le> 1 * 1" using a rb r by (intro mult_mono) simp_all
  then have "max (\<bar>a - 1\<bar> * r) (1 - e) \<le> 1" using e by simp
  then have "q4 (1 / 2 - (a - 1)\<^sup>2 / 6 - (1 - e)\<^sup>2 / 2) * max (\<bar>a - 1\<bar> * r) (1 - e)
      \<le> q4 (1 / 2 - (a - 1)\<^sup>2 / 6 - (1 - e)\<^sup>2 / 2) * 1"
    by (intro mult_left_mono) simp_all
  with qB have B: "q4 (1 / 2 - (a - 1)\<^sup>2 / 6 - (1 - e)\<^sup>2 / 2) * max (\<bar>a - 1\<bar> * r) (1 - e)
      \<le> 1 / 65536" by simp
  have "Gsum r a e \<le> 2 / 81 * (231 / 400) + 1 / 65536"
    unfolding Gsum_def using A B C AC by linarith
  then show ?thesis by simp
qed

text \<open>On a box \<open>[a1, a2] \<times> [e1, e2]\<close> of the left half each kernel is largest at the
  corner of the box nearest to its own centre, each gradient bound at the farthest.\<close>

definition Gbox :: "real \<Rightarrow> real \<Rightarrow> real \<Rightarrow> real \<Rightarrow> real" where
  "Gbox a1 a2 e1 e2 =
     q4 (1 / 2 - a1\<^sup>2 / 6 - e1\<^sup>2 / 2) * max (a2 * (231 / 400)) e2
   + q4 (1 / 2 - (1 - a2)\<^sup>2 / 6 - (1 - e2)\<^sup>2 / 2) * max ((1 - a1) * (231 / 400)) (1 - e1)
   + q4 (1 / 2 - (2 - a2)\<^sup>2 / 6 - e1\<^sup>2 / 2) * max ((2 - a1) * (231 / 400)) e2"

lemma sq_mono: "0 \<le> (x :: real) \<Longrightarrow> x \<le> y \<Longrightarrow> x\<^sup>2 \<le> y\<^sup>2"
  by (rule power_mono)

lemma Gsum_le_Gbox:
  fixes r a e :: real
  assumes r: "0 \<le> r" "r \<le> 231 / 400"
    and a: "0 \<le> a1" "a1 \<le> a" "a \<le> a2" "a2 \<le> 1"
    and e: "0 \<le> e1" "e1 \<le> e" "e \<le> e2" "e2 \<le> 1"
  shows "Gsum r a e \<le> Gbox a1 a2 e1 e2"
proof -
  have sa: "a1\<^sup>2 \<le> a\<^sup>2" using a by (intro sq_mono) simp_all
  have se: "e1\<^sup>2 \<le> e\<^sup>2" using e by (intro sq_mono) simp_all
  have sa1: "(1 - a2)\<^sup>2 \<le> (a - 1)\<^sup>2"
  proof -
    have "(1 - a2)\<^sup>2 \<le> (1 - a)\<^sup>2" using a by (intro sq_mono) simp_all
    also have "(1 - a)\<^sup>2 = (a - 1)\<^sup>2" by (simp add: power2_eq_square algebra_simps)
    finally show ?thesis .
  qed
  have se1: "(1 - e2)\<^sup>2 \<le> (1 - e)\<^sup>2" using e by (intro sq_mono) simp_all
  have sa2: "(2 - a2)\<^sup>2 \<le> (2 - a)\<^sup>2" using a by (intro sq_mono) simp_all
  have "a * r \<le> a2 * (231 / 400)" using a r by (intro mult_mono) simp_all
  then have mA: "max (a * r) e \<le> max (a2 * (231 / 400)) e2" using e by (intro max.mono) simp_all
  have "\<bar>a - 1\<bar> * r \<le> (1 - a1) * (231 / 400)" using a r by (intro mult_mono) simp_all
  then have mB: "max (\<bar>a - 1\<bar> * r) (1 - e) \<le> max ((1 - a1) * (231 / 400)) (1 - e1)" using e by (intro max.mono) simp_all
  have "(2 - a) * r \<le> (2 - a1) * (231 / 400)" using a r by (intro mult_mono) simp_all
  then have mC: "max ((2 - a) * r) e \<le> max ((2 - a1) * (231 / 400)) e2" using e by (intro max.mono) simp_all
  have A: "q4 (1 / 2 - a\<^sup>2 / 6 - e\<^sup>2 / 2) * max (a * r) e
      \<le> q4 (1 / 2 - a1\<^sup>2 / 6 - e1\<^sup>2 / 2) * max (a2 * (231 / 400)) e2"
  proof (intro mult_mono q4_mono mA)
    show "1 / 2 - a\<^sup>2 / 6 - e\<^sup>2 / 2 \<le> 1 / 2 - a1\<^sup>2 / 6 - e1\<^sup>2 / 2" using sa se by simp
    show "0 \<le> max (a * r) e" using a e r by simp
  qed simp
  have B: "q4 (1 / 2 - (a - 1)\<^sup>2 / 6 - (1 - e)\<^sup>2 / 2) * max (\<bar>a - 1\<bar> * r) (1 - e)
      \<le> q4 (1 / 2 - (1 - a2)\<^sup>2 / 6 - (1 - e2)\<^sup>2 / 2) * max ((1 - a1) * (231 / 400)) (1 - e1)"
  proof (intro mult_mono q4_mono mB)
    show "1 / 2 - (a - 1)\<^sup>2 / 6 - (1 - e)\<^sup>2 / 2 \<le> 1 / 2 - (1 - a2)\<^sup>2 / 6 - (1 - e2)\<^sup>2 / 2"
      using sa1 se1 by simp
    show "0 \<le> max (\<bar>a - 1\<bar> * r) (1 - e)" using e by simp
  qed simp
  have C: "q4 (1 / 2 - (2 - a)\<^sup>2 / 6 - e\<^sup>2 / 2) * max ((2 - a) * r) e
      \<le> q4 (1 / 2 - (2 - a2)\<^sup>2 / 6 - e1\<^sup>2 / 2) * max ((2 - a1) * (231 / 400)) e2"
  proof (intro mult_mono q4_mono mC)
    show "1 / 2 - (2 - a)\<^sup>2 / 6 - e\<^sup>2 / 2 \<le> 1 / 2 - (2 - a2)\<^sup>2 / 6 - e1\<^sup>2 / 2" using sa2 se by simp
    show "0 \<le> max ((2 - a) * r) e" using e by simp
  qed simp
  show ?thesis unfolding Gsum_def Gbox_def using A B C by linarith
qed

text \<open>The same bound on the grid of step \<open>1 / 128\<close>, in integers.\<close>

definition q4_int :: "int \<Rightarrow> int" where
  "q4_int t = (if t > 0 then t * t * t * t else 0)"

definition box_ok :: "int \<Rightarrow> int \<Rightarrow> int \<Rightarrow> bool" where
  "box_ok i j n =
     (70 * (q4_int (49152 - i * i - 3 * (j * j)) * max (231 * (i + n)) (400 * (j + n))
          + q4_int (49152 - (128 - i - n) * (128 - i - n) - 3 * ((128 - j - n) * (128 - j - n)))
              * max (231 * (128 - i)) (400 * (128 - j))
          + q4_int (49152 - (256 - i - n) * (256 - i - n) - 3 * (j * j))
              * max (231 * (256 - i)) (400 * (j + n)))
      \<le> 4781396063905515778867200)"

fun check :: "nat \<Rightarrow> int \<Rightarrow> int \<Rightarrow> int \<Rightarrow> bool" where
  "check 0 i j n = (if j + n \<le> 8 \<and> 16 \<le> i then True else box_ok i j n)"
| "check (Suc d) i j n =
     (if j + n \<le> 8 \<and> 16 \<le> i then True
      else if box_ok i j n then True
      else (if check d i j (n div 2)
            then (if check d (i + n div 2) j (n div 2)
                  then (if check d i (j + n div 2) (n div 2)
                        then check d (i + n div 2) (j + n div 2) (n div 2)
                        else False)
                  else False)
            else False))"

lemma q4_of_int: "q4 (real_of_int t / 98304) = real_of_int (q4_int t) / 98304 ^ 4"
proof (cases "t > 0")
  case True
  then have "q4 (real_of_int t / 98304) = (real_of_int t / 98304) ^ 4"
    by (simp add: q4_def max_def)
  also have "\<dots> = real_of_int (t * t * t * t) / 98304 ^ 4"
    by (simp add: power_divide power4_eq_xxxx)
  finally show ?thesis using True by (simp add: q4_int_def)
next
  case False
  then have "real_of_int t / 98304 \<le> 0" by simp
  then have "q4 (real_of_int t / 98304) = 0" by (simp add: q4_def max_def)
  then show ?thesis using False by (simp add: q4_int_def)
qed

lemma kernel_of_int:
  "1 / 2 - (real_of_int p / 128)\<^sup>2 / 6 - (real_of_int s / 128)\<^sup>2 / 2
     = real_of_int (49152 - p * p - 3 * (s * s)) / 98304"
  by (simp add: power2_eq_square field_simps)

lemma max_of_int:
  "max (real_of_int t / 128 * (231 / 400)) (real_of_int u / 128)
     = real_of_int (max (231 * t) (400 * u)) / 51200"
  by (simp add: max_def field_simps)

lemma term_of_int:
  "q4 (1 / 2 - (real_of_int p / 128)\<^sup>2 / 6 - (real_of_int s / 128)\<^sup>2 / 2)
     * max (real_of_int t / 128 * (231 / 400)) (real_of_int u / 128)
   = real_of_int (q4_int (49152 - p * p - 3 * (s * s)) * max (231 * t) (400 * u))
       / 4781396063905515778867200"
proof -
  have "(98304 :: real) ^ 4 * 51200 = 4781396063905515778867200" by simp
  then show ?thesis unfolding kernel_of_int q4_of_int max_of_int
    by (simp only: times_divide_times_eq of_int_mult)
qed

lemma box_ok_sound:
  fixes r a e :: real
  assumes ok: "box_ok i j n"
    and r: "0 \<le> r" "r \<le> 231 / 400"
    and i: "0 \<le> i" "i + n \<le> 128" and j: "0 \<le> j" "j + n \<le> 128"
    and a: "real_of_int i \<le> 128 * a" "128 * a \<le> real_of_int (i + n)"
    and e: "real_of_int j \<le> 128 * e" "128 * e \<le> real_of_int (j + n)"
  shows "Gsum r a e \<le> 1 / 70"
proof -
  let ?a1 = "real_of_int i / 128" and ?a2 = "real_of_int (i + n) / 128"
  let ?e1 = "real_of_int j / 128" and ?e2 = "real_of_int (j + n) / 128"
  have le: "Gsum r a e \<le> Gbox ?a1 ?a2 ?e1 ?e2"
  proof (rule Gsum_le_Gbox [OF r])
    show "0 \<le> ?a1" using i by simp
    show "?a1 \<le> a" using a by simp
    show "a \<le> ?a2" using a by simp
    show "?a2 \<le> 1" using i by simp
    show "0 \<le> ?e1" using j by simp
    show "?e1 \<le> e" using e by simp
    show "e \<le> ?e2" using e by simp
    show "?e2 \<le> 1" using j by simp
  qed
  have c1: "1 - ?a2 = real_of_int (128 - i - n) / 128" "1 - ?e2 = real_of_int (128 - j - n) / 128"
    "1 - ?a1 = real_of_int (128 - i) / 128" "1 - ?e1 = real_of_int (128 - j) / 128"
    "2 - ?a2 = real_of_int (256 - i - n) / 128" "2 - ?a1 = real_of_int (256 - i) / 128"
    by (simp_all add: field_simps)
  have "Gbox ?a1 ?a2 ?e1 ?e2 =
      real_of_int (q4_int (49152 - i * i - 3 * (j * j)) * max (231 * (i + n)) (400 * (j + n))
          + q4_int (49152 - (128 - i - n) * (128 - i - n) - 3 * ((128 - j - n) * (128 - j - n)))
              * max (231 * (128 - i)) (400 * (128 - j))
          + q4_int (49152 - (256 - i - n) * (256 - i - n) - 3 * (j * j))
              * max (231 * (256 - i)) (400 * (j + n)))
       / 4781396063905515778867200"
    unfolding Gbox_def c1 term_of_int by (simp only: of_int_add add_divide_distrib)
  moreover have "real_of_int (70 * (q4_int (49152 - i * i - 3 * (j * j)) * max (231 * (i + n)) (400 * (j + n))
          + q4_int (49152 - (128 - i - n) * (128 - i - n) - 3 * ((128 - j - n) * (128 - j - n)))
              * max (231 * (128 - i)) (400 * (128 - j))
          + q4_int (49152 - (256 - i - n) * (256 - i - n) - 3 * (j * j))
              * max (231 * (256 - i)) (400 * (j + n))))
      \<le> real_of_int 4781396063905515778867200"
    using ok unfolding box_ok_def by (simp only: of_int_le_iff)
  ultimately have "Gbox ?a1 ?a2 ?e1 ?e2 \<le> 1 / 70" by simp
  with le show ?thesis by simp
qed

lemma strip_sound:
  fixes r a e :: real
  assumes r: "0 \<le> r" "3 * r\<^sup>2 = 1"
    and s: "j + n \<le> 8" "16 \<le> i"
    and i: "i + n \<le> 128" and j: "0 \<le> j"
    and a: "real_of_int i \<le> 128 * a" "128 * a \<le> real_of_int (i + n)"
    and e: "real_of_int j \<le> 128 * e" "128 * e \<le> real_of_int (j + n)"
  shows "Gsum r a e \<le> 1 / 70"
proof -
  have "real_of_int 16 \<le> real_of_int i" using s(2) by (simp only: of_int_le_iff)
  with a(1) have a1: "1 / 8 \<le> a" by simp
  have "real_of_int (i + n) \<le> real_of_int 128" using i by (simp only: of_int_le_iff)
  with a(2) have a2: "a \<le> 1" by simp
  have "real_of_int 0 \<le> real_of_int j" using j by (simp only: of_int_le_iff)
  with e(1) have e1: "0 \<le> e" by simp
  have "real_of_int (j + n) \<le> real_of_int 8" using s(1) by (simp only: of_int_le_iff)
  with e(2) have e2: "e \<le> 1 / 16" by simp
  show ?thesis by (rule Gsum_strip [OF r a1 a2 e1 e2])
qed

lemma check_sound:
  fixes r a e :: real
  assumes r: "0 \<le> r" "3 * r\<^sup>2 = 1"
  shows "check d i j (2 ^ d) \<Longrightarrow> 0 \<le> i \<Longrightarrow> i + 2 ^ d \<le> 128 \<Longrightarrow> 0 \<le> j \<Longrightarrow> j + 2 ^ d \<le> 128 \<Longrightarrow>
     real_of_int i \<le> 128 * a \<Longrightarrow> 128 * a \<le> real_of_int (i + 2 ^ d) \<Longrightarrow>
     real_of_int j \<le> 128 * e \<Longrightarrow> 128 * e \<le> real_of_int (j + 2 ^ d) \<Longrightarrow>
     Gsum r a e \<le> 1 / 70"
proof (induction d arbitrary: i j)
  case 0
  note rb = inv_sqrt3_bounds [OF r]
  show ?case
  proof (cases "j + 2 ^ 0 \<le> 8 \<and> 16 \<le> i")
    case True
    then show ?thesis using 0 by (intro strip_sound [OF r, of j "2 ^ 0" i]) simp_all
  next
    case False
    with 0 have "box_ok i j (2 ^ 0)" by simp
    then show ?thesis using 0 r(1) rb(2) by (intro box_ok_sound [of i j "2 ^ 0"])
  qed
next
  case (Suc d)
  note rb = inv_sqrt3_bounds [OF r]
  define h :: int where "h = 2 ^ d"
  have two: "(2 :: int) ^ Suc d = h + h" by (simp add: h_def)
  have half: "(h + h) div 2 = h" by simp
  have pos: "0 < h" by (simp add: h_def)
  note p = Suc.prems [unfolded two]
  note IH = Suc.IH [folded h_def]
  show ?case unfolding two
  proof (cases "j + (h + h) \<le> 8 \<and> 16 \<le> i")
    case True
    then show ?thesis using p by (intro strip_sound [OF r, of j "h + h" i]) simp_all
  next
    case False
    show ?thesis
    proof (cases "box_ok i j (h + h)")
      case True
      then show ?thesis using p r(1) rb(2) by (intro box_ok_sound [of i j "h + h"])
    next
      case nb: False
      from p(1) False nb
      have c: "check d i j h" "check d (i + h) j h" "check d i (j + h) h" "check d (i + h) (j + h) h"
        unfolding check.simps half by (simp_all split: if_splits)
      have b: "0 \<le> i" "i + h + h \<le> 128" "0 \<le> j" "j + h + h \<le> 128"
        using p(2-5) by simp_all
      have ra: "real_of_int i \<le> 128 * a" "128 * a \<le> real_of_int i + real_of_int h + real_of_int h"
        "real_of_int j \<le> 128 * e" "128 * e \<le> real_of_int j + real_of_int h + real_of_int h"
        using p(6-9) by simp_all
      consider (ll) "128 * a \<le> real_of_int i + real_of_int h" "128 * e \<le> real_of_int j + real_of_int h"
        | (hl) "real_of_int i + real_of_int h \<le> 128 * a" "128 * e \<le> real_of_int j + real_of_int h"
        | (lh) "128 * a \<le> real_of_int i + real_of_int h" "real_of_int j + real_of_int h \<le> 128 * e"
        | (hh) "real_of_int i + real_of_int h \<le> 128 * a" "real_of_int j + real_of_int h \<le> 128 * e"
        by linarith
      then show ?thesis
      proof cases
        case ll
        show ?thesis
        proof (rule IH [OF c(1)])
          show "0 \<le> i" "0 \<le> j" "i + h \<le> 128" "j + h \<le> 128" using b pos by linarith+
        qed (use ra ll in simp_all)
      next
        case hl
        show ?thesis
        proof (rule IH [OF c(2)])
          show "0 \<le> i + h" "0 \<le> j" "i + h + h \<le> 128" "j + h \<le> 128" using b pos by linarith+
        qed (use ra hl in simp_all)
      next
        case lh
        show ?thesis
        proof (rule IH [OF c(3)])
          show "0 \<le> i" "0 \<le> j + h" "i + h \<le> 128" "j + h + h \<le> 128" using b pos by linarith+
        qed (use ra lh in simp_all)
      next
        case hh
        show ?thesis
        proof (rule IH [OF c(4)])
          show "0 \<le> i + h" "0 \<le> j + h" "i + h + h \<le> 128" "j + h + h \<le> 128" using b pos by linarith+
        qed (use ra hh in simp_all)
      qed
    qed
  qed
qed

lemma check_unit_square: "check 7 0 0 128"
  by code_simp

lemma Gsum_left:
  fixes r a e :: real
  assumes r: "0 \<le> r" "3 * r\<^sup>2 = 1" and a: "0 \<le> a" "a \<le> 1" and e: "0 \<le> e" "e \<le> 1"
  shows "Gsum r a e \<le> 1 / 70"
proof -
  have c: "check 7 0 0 (2 ^ 7)" using check_unit_square by simp
  show ?thesis by (rule check_sound [OF r c]) (use a e in simp_all)
qed

lemma Gsum_bound:
  fixes r a e :: real
  assumes r: "0 \<le> r" "3 * r\<^sup>2 = 1" and a: "0 \<le> a" "a \<le> 2" and e: "0 \<le> e" "e \<le> 1"
  shows "Gsum r a e \<le> 1 / 70"
proof (cases "a \<le> 1")
  case True
  then show ?thesis using Gsum_left [OF r a(1) _ e] by simp
next
  case False
  then have "Gsum r (2 - a) e \<le> 1 / 70" using a by (intro Gsum_left [OF r _ _ e]) simp_all
  then show ?thesis unfolding Gsum_sym .
qed

text \<open>The shuffle permutes the 256 entries it is given.\<close>

lemma shuffle_entries:
  "length p = 256 \<Longrightarrow> n < 256 \<Longrightarrow>
     length (shuffle L n g p) = 256 \<and> set (shuffle L n g p) \<subseteq> set p"
proof (induction n arbitrary: g p)
  case 0
  then show ?case by simp
next
  case (Suc n)
  obtain r g' where m: "mt_next L g = (r, g')" by (cases "mt_next L g")
  define j where "j = unat r mod (Suc n + 1)"
  define p' where "p' = p[Suc n := p ! j, j := p ! Suc n]"
  have "j < Suc n + 1" unfolding j_def by (rule mod_less_divisor) simp
  with Suc.prems(2) have j: "j < 256" by linarith
  have l: "length p' = 256" using Suc.prems(1) by (simp add: p'_def)
  have "p ! j \<in> set p" "p ! Suc n \<in> set p" using j Suc.prems by simp_all
  then have s: "set p' \<subseteq> set p" unfolding p'_def
    using set_update_subset_insert [of "p[Suc n := p ! j]" j "p ! Suc n"]
      set_update_subset_insert [of p "Suc n" "p ! j"] by auto
  from Suc.IH [OF l, of g'] Suc.prems(2) s
  have "length (shuffle L n g' p') = 256 \<and> set (shuffle L n g' p') \<subseteq> set p" by auto
  then show ?case by (simp add: m j_def p'_def Let_def)
qed

definition wf_tables :: "simplex \<Rightarrow> bool" where
  "wf_tables sn \<longleftrightarrow>
     length (perm sn) = 512 \<and> length (permMod12 sn) = 512
     \<and> (\<forall>k < 512. 0 \<le> perm sn ! k \<and> perm sn ! k \<le> 255)
     \<and> (\<forall>k < 512. 0 \<le> permMod12 sn ! k \<and> permMod12 sn ! k < 12)"

lemma wf_tables_SimplexNoise: "wf_tables (SimplexNoise L seed)"
proof -
  define p where "p = shuffle L 255 (mt_seed L seed) (map int [0..<256])"
  have "length p = 256 \<and> set p \<subseteq> set (map int [0..<256])"
    unfolding p_def by (rule shuffle_entries) simp_all
  then have l: "length p = 256" and s: "\<forall>v \<in> set (p @ p). 0 \<le> v \<and> v \<le> 255" by auto
  have r: "\<forall>k < 512. 0 \<le> (p @ p) ! k \<and> (p @ p) ! k \<le> 255"
  proof (intro allI impI)
    fix k :: nat assume "k < 512"
    then have "(p @ p) ! k \<in> set (p @ p)" using l by (intro nth_mem) simp
    with s show "0 \<le> (p @ p) ! k \<and> (p @ p) ! k \<le> 255" by blast
  qed
  have t: "\<forall>k < 512. 0 \<le> map (\<lambda>v. v mod 12) (p @ p) ! k \<and> map (\<lambda>v. v mod 12) (p @ p) ! k < 12"
  proof (intro allI impI)
    fix k :: nat assume "k < 512"
    then have "k < length (p @ p)" using l by simp
    then have "map (\<lambda>v. v mod 12) (p @ p) ! k = (p @ p) ! k mod 12" by (rule nth_map)
    then show "0 \<le> map (\<lambda>v. v mod 12) (p @ p) ! k \<and> map (\<lambda>v. v mod 12) (p @ p) ! k < 12"
      by simp
  qed
  show ?thesis
    unfolding wf_tables_def SimplexNoise_def initializePermutation_def Let_def p_def [symmetric]
    using l r t by (simp del: map_append)
qed

lemma dot_grad3: "g \<in> set grad3 \<Longrightarrow> \<bar>dot g x y\<bar> \<le> \<bar>x\<bar> + \<bar>y\<bar>"
  by (auto simp: grad3_def dot_def)

lemma gradient_bound:
  assumes "wf_tables sn" "0 \<le> a" "a \<le> 256" "0 \<le> b" "b \<le> 256"
  shows "\<bar>dot (grad3 ! nat (permMod12 sn ! nat (a + perm sn ! nat b))) x y\<bar> \<le> \<bar>x\<bar> + \<bar>y\<bar>"
proof -
  have "nat b < 512" using assms by simp
  with assms(1) have p: "0 \<le> perm sn ! nat b" "perm sn ! nat b \<le> 255"
    unfolding wf_tables_def by blast+
  then have "nat (a + perm sn ! nat b) < 512" using assms by simp
  with assms(1) have "0 \<le> permMod12 sn ! nat (a + perm sn ! nat b)"
    "permMod12 sn ! nat (a + perm sn ! nat b) < 12"
    unfolding wf_tables_def by blast+
  then have "nat (permMod12 sn ! nat (a + perm sn ! nat b)) < length grad3"
    by (simp add: grad3_def)
  then have "grad3 ! nat (permMod12 sn ! nat (a + perm sn ! nat b)) \<in> set grad3"
    by (rule nth_mem)
  then show ?thesis by (rule dot_grad3)
qed

lemma corner_abs: "\<bar>corner g x y\<bar> = q4 (1 / 2 - x * x - y * y) * \<bar>dot g x y\<bar>"
  by (simp add: corner_def Let_def q4_def max_def abs_mult power4_eq_xxxx)

lemma abs_sum_max: "\<bar>x\<bar> + \<bar>y\<bar> = max \<bar>x + y\<bar> \<bar>x - y :: real\<bar>"
  by (simp add: max_def abs_if)

text \<open>A corner in the coordinates \<open>x + y = c / sqrt 3\<close> and \<open>|x - y| = e\<close>.\<close>

lemma corner_bound:
  fixes r :: real
  assumes g: "\<bar>dot g x y\<bar> \<le> \<bar>x\<bar> + \<bar>y\<bar>"
    and r: "0 \<le> r" "3 * r\<^sup>2 = 1"
    and c: "x + y = c * r" and e: "\<bar>x - y\<bar> = e"
  shows "\<bar>corner g x y\<bar> \<le> q4 (1 / 2 - c\<^sup>2 / 6 - e\<^sup>2 / 2) * max (\<bar>c\<bar> * r) e"
proof -
  have r2: "r\<^sup>2 = 1 / 3" using r(2) by simp
  have "x * x + y * y = ((x + y)\<^sup>2 + (x - y)\<^sup>2) / 2"
    by (simp add: power2_eq_square algebra_simps)
  also have "(x - y)\<^sup>2 = e\<^sup>2" using e by (metis power2_abs)
  also have "(x + y)\<^sup>2 = c\<^sup>2 * r\<^sup>2" unfolding c by (simp add: power_mult_distrib)
  finally have k: "1 / 2 - x * x - y * y = 1 / 2 - c\<^sup>2 / 6 - e\<^sup>2 / 2"
    unfolding r2 by (simp add: field_simps)
  have "\<bar>x + y\<bar> = \<bar>c\<bar> * r" unfolding c using r(1) by (simp add: abs_mult)
  then have m: "\<bar>x\<bar> + \<bar>y\<bar> = max (\<bar>c\<bar> * r) e" unfolding abs_sum_max e by simp
  have "\<bar>corner g x y\<bar> = q4 (1 / 2 - x * x - y * y) * \<bar>dot g x y\<bar>" by (rule corner_abs)
  also have "\<dots> \<le> q4 (1 / 2 - x * x - y * y) * (\<bar>x\<bar> + \<bar>y\<bar>)"
    using g by (intro mult_left_mono) simp_all
  finally show ?thesis unfolding k m .
qed

lemma fastfloor_floor: "fastfloor x = \<lfloor>x\<rfloor>"
proof (cases "0 \<le> x")
  case True
  then show ?thesis by (simp add: fastfloor_def trunc_def Let_def not_less)
next
  case False
  show ?thesis
  proof (cases "x < real_of_int \<lceil>x\<rceil>")
    case True
    then have "\<lceil>x\<rceil> - 1 = \<lfloor>x\<rfloor>" by linarith
    with True False show ?thesis by (simp add: fastfloor_def trunc_def Let_def)
  next
    case f: False
    then have "real_of_int \<lceil>x\<rceil> = x" by linarith
    then have "\<lceil>x\<rceil> = \<lfloor>x\<rfloor>" by linarith
    with f False show ?thesis by (simp add: fastfloor_def trunc_def Let_def)
  qed
qed

lemma skew_constants:
  "0 \<le> 1 - 2 * G2" "3 * (1 - 2 * G2)\<^sup>2 = 1" "F2 = (1 + 2 * F2) * G2"
proof -
  have s: "sqrt 3 * sqrt 3 = 3" by simp
  have e: "1 - 2 * G2 = sqrt 3 / 3" by (simp add: G2_def field_simps)
  show "0 \<le> 1 - 2 * G2" unfolding e by simp
  show "3 * (1 - 2 * G2)\<^sup>2 = 1" unfolding e by (simp add: power2_eq_square s)
  have "1 + 2 * F2 = sqrt 3" by (simp add: F2_def field_simps)
  then have "(1 + 2 * F2) * G2 = sqrt 3 * ((3 - sqrt 3) / 6)" by (simp only: G2_def)
  also have "\<dots> = (3 * sqrt 3 - sqrt 3 * sqrt 3) / 6" by (simp add: algebra_simps)
  also have "\<dots> = F2" unfolding s by (simp add: F2_def)
  finally show "F2 = (1 + 2 * F2) * G2" by simp
qed


text \<open>The three corners of a sample, in the coordinates \<open>u, v\<close> of the point within its
  skewed cell.\<close>

lemma noise_fn_bound:
  assumes wf: "wf_tables sn"
  shows "\<bar>noise_fn sn xin yin\<bar> \<le> 1"
proof -
  define r where "r = 1 - 2 * G2"
  note rc = skew_constants(1,2) [folded r_def]
  define s where "s = (xin + yin) * F2"
  define i where "i = \<lfloor>xin + s\<rfloor>"
  define j where "j = \<lfloor>yin + s\<rfloor>"
  define u where "u = xin + s - real_of_int i"
  define v where "v = yin + s - real_of_int j"
  define x0 where "x0 = xin - (real_of_int i - real_of_int (i + j) * G2)"
  define y0 where "y0 = yin - (real_of_int j - real_of_int (i + j) * G2)"
  define i1 :: int where "i1 = (if x0 > y0 then 1 else 0)"
  define j1 :: int where "j1 = (if x0 > y0 then 0 else 1)"
  define x1 where "x1 = x0 - real_of_int i1 + G2"
  define y1 where "y1 = y0 - real_of_int j1 + G2"
  define x2 where "x2 = x0 - 1 + 2 * G2"
  define y2 where "y2 = y0 - 1 + 2 * G2"
  define ii where "ii = i AND 255"
  define jj where "jj = j AND 255"
  define g0 where "g0 = grad3 ! nat (permMod12 sn ! nat (ii + perm sn ! nat jj))"
  define g1 where "g1 = grad3 ! nat (permMod12 sn ! nat (ii + i1 + perm sn ! nat (jj + j1)))"
  define g2 where "g2 = grad3 ! nat (permMod12 sn ! nat (ii + 1 + perm sn ! nat (jj + 1)))"
  have n: "noise_fn sn xin yin = 70 * (corner g0 x0 y0 + corner g1 x1 y1 + corner g2 x2 y2)"
    unfolding noise_fn_def Let_def fastfloor_floor
    by (simp add: s_def i_def j_def x0_def y0_def i1_def j1_def x1_def y1_def x2_def y2_def
        ii_def jj_def g0_def g1_def g2_def)
  have u: "0 \<le> u" "u < 1" unfolding u_def i_def by linarith+
  have v: "0 \<le> v" "v < 1" unfolding v_def j_def by linarith+
  define a where "a = u + v"
  define e where "e = \<bar>u - v\<bar>"
  have a: "0 \<le> a" "a \<le> 2" using u v by (simp_all add: a_def)
  have e: "0 \<le> e" "e \<le> 1" using u v by (simp_all add: e_def)
  have "s - (xin + yin + 2 * s) * G2 = (xin + yin) * (F2 - (1 + 2 * F2) * G2)"
    by (simp add: s_def algebra_simps)
  also have "\<dots> = 0" using skew_constants(3) by simp
  finally have z: "s - (xin + yin + 2 * s) * G2 = 0" .
  have "(u - a * G2) - x0 = s - (xin + yin + 2 * s) * G2"
    by (simp add: x0_def u_def v_def a_def algebra_simps)
  with z have x0: "x0 = u - a * G2" by simp
  have "(v - a * G2) - y0 = s - (xin + yin + 2 * s) * G2"
    by (simp add: y0_def u_def v_def a_def algebra_simps)
  with z have y0: "y0 = v - a * G2" by simp
  have d0: "x0 - y0 = u - v" by (simp add: x0 y0)
  have s0: "x0 + y0 = a * r" by (simp add: x0 y0 a_def r_def algebra_simps)
  have ii: "0 \<le> ii" "ii \<le> 255" by (simp_all add: ii_def)
  have jj: "0 \<le> jj" "jj \<le> 255" by (simp_all add: jj_def)
  have ij: "0 \<le> i1" "i1 \<le> 1" "0 \<le> j1" "j1 \<le> 1" by (simp_all add: i1_def j1_def)
  have b0: "\<bar>dot g0 x0 y0\<bar> \<le> \<bar>x0\<bar> + \<bar>y0\<bar>"
    using gradient_bound [OF wf, of ii jj x0 y0] ii jj by (simp add: g0_def)
  have b1: "\<bar>dot g1 x1 y1\<bar> \<le> \<bar>x1\<bar> + \<bar>y1\<bar>"
    using gradient_bound [OF wf, of "ii + i1" "jj + j1" x1 y1] ii jj ij by (simp add: g1_def)
  have b2: "\<bar>dot g2 x2 y2\<bar> \<le> \<bar>x2\<bar> + \<bar>y2\<bar>"
    using gradient_bound [OF wf, of "ii + 1" "jj + 1" x2 y2] ii jj by (simp add: g2_def)
  have c0: "\<bar>corner g0 x0 y0\<bar> \<le> q4 (1 / 2 - a\<^sup>2 / 6 - e\<^sup>2 / 2) * max (\<bar>a\<bar> * r) e"
    by (rule corner_bound [OF b0 rc s0]) (simp add: d0 e_def)
  have s1: "x1 + y1 = (a - 1) * r"
    using s0 by (simp add: x1_def y1_def i1_def j1_def r_def algebra_simps)
  have d1: "\<bar>x1 - y1\<bar> = 1 - e"
  proof (cases "x0 > y0")
    case True
    then have "u > v" using d0 by linarith
    moreover have "x1 - y1 = u - v - 1" using True d0 by (simp add: x1_def y1_def i1_def j1_def)
    ultimately show ?thesis using u v by (simp add: e_def)
  next
    case False
    then have "u \<le> v" using d0 by linarith
    moreover have "x1 - y1 = u - v + 1" using False d0 by (simp add: x1_def y1_def i1_def j1_def)
    ultimately show ?thesis using u v by (simp add: e_def)
  qed
  have c1: "\<bar>corner g1 x1 y1\<bar> \<le> q4 (1 / 2 - (a - 1)\<^sup>2 / 6 - (1 - e)\<^sup>2 / 2) * max (\<bar>a - 1\<bar> * r) (1 - e)"
    by (rule corner_bound [OF b1 rc s1 d1])
  have s2: "x2 + y2 = (a - 2) * r"
    using s0 by (simp add: x2_def y2_def r_def algebra_simps)
  have d2: "\<bar>x2 - y2\<bar> = e" using d0 by (simp add: x2_def y2_def e_def)
  have "\<bar>corner g2 x2 y2\<bar> \<le> q4 (1 / 2 - (a - 2)\<^sup>2 / 6 - e\<^sup>2 / 2) * max (\<bar>a - 2\<bar> * r) e"
    by (rule corner_bound [OF b2 rc s2 d2])
  moreover have "(a - 2)\<^sup>2 = (2 - a)\<^sup>2" by (simp add: power2_eq_square algebra_simps)
  moreover have "\<bar>a - 2\<bar> = 2 - a" using a by simp
  ultimately have c2: "\<bar>corner g2 x2 y2\<bar> \<le> q4 (1 / 2 - (2 - a)\<^sup>2 / 6 - e\<^sup>2 / 2) * max ((2 - a) * r) e"
    by simp
  have aa: "\<bar>a\<bar> = a" using a by simp
  have "\<bar>corner g0 x0 y0\<bar> + \<bar>corner g1 x1 y1\<bar> + \<bar>corner g2 x2 y2\<bar> \<le> Gsum r a e"
    unfolding Gsum_def using c0 [unfolded aa] c1 c2 by linarith
  also have "\<dots> \<le> 1 / 70" by (rule Gsum_bound [OF rc a e])
  finally have "\<bar>corner g0 x0 y0 + corner g1 x1 y1 + corner g2 x2 y2\<bar> \<le> 1 / 70" by linarith
  then have "70 * \<bar>corner g0 x0 y0 + corner g1 x1 y1 + corner g2 x2 y2\<bar> \<le> 1" by simp
  moreover have "\<bar>70 * (corner g0 x0 y0 + corner g1 x1 y1 + corner g2 x2 y2)\<bar>
      = 70 * \<bar>corner g0 x0 y0 + corner g1 x1 y1 + corner g2 x2 y2\<bar>" by (simp only: abs_mult abs_numeral)
  ultimately show ?thesis unfolding n by (simp only:)
qed

lemma noise_fn_SimplexNoise_bound: "\<bar>noise_fn (SimplexNoise L seed) x y\<bar> \<le> 1"
  by (rule noise_fn_bound [OF wf_tables_SimplexNoise])

subsection \<open>The range of the fractal noise\<close>

text \<open>The octave loop with a non-negative persistence keeps every amplitude non-negative:
  the value accumulated is bounded by the bound of the samples times the sum of the
  amplitudes.\<close>

lemma fractal_loop_bound:
  assumes "0 \<le> persistence"
  shows "0 \<le> amplitude \<Longrightarrow> 0 \<le> maxValue \<Longrightarrow> \<bar>val\<bar> \<le> b * maxValue \<Longrightarrow>
     \<forall>k < n. \<bar>noise_fn sn (x * (frequency * lacunarity ^ k)) (y * (frequency * lacunarity ^ k))\<bar> \<le> b \<Longrightarrow>
     (case fractal_loop sn x y persistence lacunarity n val amplitude frequency maxValue of
        (val', maxValue') \<Rightarrow> \<bar>val'\<bar> \<le> b * maxValue' \<and>
           maxValue + (if n = 0 then 0 else amplitude) \<le> maxValue')"
proof (induction n arbitrary: val amplitude frequency maxValue)
  case 0
  then show ?case by simp
next
  case (Suc n)
  let ?v = "val + noise_fn sn (x * frequency) (y * frequency) * amplitude"
  from Suc.prems(4) have n0: "\<bar>noise_fn sn (x * frequency) (y * frequency)\<bar> \<le> b"
    by (auto dest: spec [of _ 0])
  have "\<bar>noise_fn sn (x * frequency) (y * frequency) * amplitude\<bar> \<le> b * amplitude"
    using n0 Suc.prems(1) by (simp add: abs_mult mult_right_mono)
  then have v: "\<bar>?v\<bar> \<le> b * (maxValue + amplitude)"
    using Suc.prems(3) by (simp add: algebra_simps)
  have a: "0 \<le> amplitude * persistence" using Suc.prems(1) assms by simp
  have m: "0 \<le> maxValue + amplitude" using Suc.prems(1,2) by simp
  have rest: "\<forall>k < n. \<bar>noise_fn sn (x * (frequency * lacunarity * lacunarity ^ k))
                              (y * (frequency * lacunarity * lacunarity ^ k))\<bar> \<le> b"
  proof (intro allI impI)
    fix k assume "k < n"
    then have "Suc k < Suc n" by simp
    with Suc.prems(4) show "\<bar>noise_fn sn (x * (frequency * lacunarity * lacunarity ^ k))
                              (y * (frequency * lacunarity * lacunarity ^ k))\<bar> \<le> b"
      by (auto simp: mult.assoc dest!: spec [of _ "Suc k"])
  qed
  from Suc.IH [OF a m v rest] Suc.prems(1) a show ?case
    by (auto simp: case_prod_unfold split: if_splits)
qed

text \<open>
  Claim C8 says that \<open>noise\<close> returns a value in \<open>[-1, 1]\<close> for every seed and
  coordinate, and that \<open>fractal\<close> does for every octave count, persistence and
  lacunarity, the normalisation by the sum of the amplitudes keeping it in range.

  As stated it fails for \<open>fractal\<close>: the sum of the amplitudes can be zero. With
  persistence \<open>-1\<close> and two octaves the amplitudes are \<open>1\<close> and \<open>-1\<close>, and with no
  octave there is no amplitude; at the origin, where every sample is 0, the result is
  \<open>0 / 0\<close>, not a number, in binary64 as over the reals.
\<close>

theorem fractal_divides_by_zero:
  "fractal (SimplexNoise test_lib 0) 0 0 2 (- 1) 2 = NaN
   \<and> fractal (SimplexNoise test_lib 0) 0 0 0 (1 / 2) 2 = NaN"
  by (simp add: fractal_def ddiv_def eval_nat_numeral)

text \<open>
  Claim C8, amended: for every seed and every coordinate \<open>(x, y)\<close> of magnitude at most
  \<open>2\<^sup>2\<^sup>8\<close>, \<open>noise(x, y)\<close> lies in \<open>[-1, 1]\<close>; and with at least one octave, a
  persistence in \<open>[0, 1]\<close>, and a frequency and scaled coordinates of magnitude at most
  \<open>2\<^sup>2\<^sup>8\<close> in every octave, \<open>fractal\<close> returns a finite value in \<open>[-1, 1]\<close>,
  whatever the number of octaves.

  The bound on \<open>noise\<close> is proved for every table the constructor can build, that is for
  every behaviour of the random engine. The hypotheses on the magnitudes are those under
  which the real arithmetic of the model is the arithmetic of the source up to rounding:
  the casts of \<open>fastfloor\<close> and the sum \<open>i + j\<close> stay within \<^verbatim>\<open>int\<close>, and neither the
  amplitude nor the frequency leaves the range of a \<^verbatim>\<open>double\<close>. Rounding itself is not
  modelled.
\<close>

theorem noise_and_fractal_range:
  assumes "\<bar>x\<bar> \<le> 2 ^ 28" "\<bar>y\<bar> \<le> 2 ^ 28"
  shows "\<bar>noise_fn (SimplexNoise L seed) x y\<bar> \<le> 1
     \<and> (1 \<le> octaves \<and> 0 \<le> persistence \<and> persistence \<le> 1
          \<and> (\<forall>k < nat octaves. \<bar>lacunarity ^ k\<bar> \<le> 2 ^ 28
                 \<and> \<bar>x * lacunarity ^ k\<bar> \<le> 2 ^ 28 \<and> \<bar>y * lacunarity ^ k\<bar> \<le> 2 ^ 28)
        \<longrightarrow> (\<exists>v. fractal (SimplexNoise L seed) x y octaves persistence lacunarity = Fin v
                  \<and> \<bar>v\<bar> \<le> 1))"
proof (intro conjI impI)
  let ?sn = "SimplexNoise L seed"
  have wf: "wf_tables ?sn" by (rule wf_tables_SimplexNoise)
  show "\<bar>noise_fn ?sn x y\<bar> \<le> 1" by (rule noise_fn_bound [OF wf])
  assume h: "1 \<le> octaves \<and> 0 \<le> persistence \<and> persistence \<le> 1
          \<and> (\<forall>k < nat octaves. \<bar>lacunarity ^ k\<bar> \<le> 2 ^ 28
                 \<and> \<bar>x * lacunarity ^ k\<bar> \<le> 2 ^ 28 \<and> \<bar>y * lacunarity ^ k\<bar> \<le> 2 ^ 28)"
  obtain val m where r: "fractal_loop ?sn x y persistence lacunarity (nat octaves) 0 1 1 0 = (val, m)"
    by (cases "fractal_loop ?sn x y persistence lacunarity (nat octaves) 0 1 1 0")
  have s: "\<forall>k < nat octaves. \<bar>noise_fn ?sn (x * (1 * lacunarity ^ k)) (y * (1 * lacunarity ^ k))\<bar> \<le> 1"
    using noise_fn_bound [OF wf] by simp
  have p: "0 \<le> persistence" using h by simp
  from fractal_loop_bound [OF p _ _ _ s, of 1 0 0] r h
  have b: "\<bar>val\<bar> \<le> 1 * m" and m: "1 \<le> m" by (auto split: if_splits)
  then have "\<bar>val / m\<bar> \<le> 1"
    by (simp add: abs_divide pos_divide_le_eq)
  moreover have "fractal ?sn x y octaves persistence lacunarity = Fin (val / m)"
    using r m by (simp add: fractal_def ddiv_def)
  ultimately show "\<exists>v. fractal ?sn x y octaves persistence lacunarity = Fin v \<and> \<bar>v\<bar> \<le> 1"
    by blast
qed

theorem noise_and_fractal_range_witness:
  "\<bar>noise_fn (SimplexNoise test_lib 42) (3 / 2) (- 7 / 4)\<bar> \<le> 1
   \<and> (\<exists>v. fractal (SimplexNoise test_lib 42) (3 / 2) (- 7 / 4) 4 (1 / 2) 2 = Fin v \<and> \<bar>v\<bar> \<le> 1)"
proof -
  have "\<forall>k < nat 4. \<bar>(2 :: real) ^ k\<bar> \<le> 2 ^ 28
      \<and> \<bar>3 / 2 * (2 :: real) ^ k\<bar> \<le> 2 ^ 28 \<and> \<bar>- 7 / 4 * (2 :: real) ^ k\<bar> \<le> 2 ^ 28"
    by (simp add: eval_nat_numeral All_less_Suc)
  then show ?thesis
    using noise_and_fractal_range [of "3 / 2" "- 7 / 4" test_lib 42 4 "1 / 2" 2] by simp
qed

end
